theory Spec2Isabelle
  imports Main
begin

section \<open>The relationship graph: data model\<close>

text \<open>
  The graph (\<^verbatim>\<open>graph.ts\<close>) is an object-oriented program: graphs, relationship containers,
  relationships and the queue arrays are objects that are shared by reference and mutated
  in place. The model keeps an explicit store: every object lives in a typed heap, a
  reference is a natural number, and \<open>nextRef\<close> is the next unused reference.
\<close>

type_synonym ref = nat

datatype error = TypeError

text \<open>\<^verbatim>\<open>relationship.kind\<close>, which indexes \<^verbatim>\<open>_queued\<close>.\<close>

datatype kind = BelongsTo | HasMany

text \<open>
  The queue arrays are \<^verbatim>\<open>any[]\<close>: \<^verbatim>\<open>push(relationship, payload)\<close> appends two elements,
  the relationship object and then its payload.
\<close>

datatype 'p qelem = QRelationship ref | QPayload 'p

text \<open>\<^verbatim>\<open>_queued: { belongsTo: any[]; hasMany: any[] }\<close>: two references to arrays.\<close>

record queues =
  belongsTo :: ref
  hasMany :: ref

record 'k Graph =
  queued :: queues
  nextFlush :: bool
  identifiers :: "'k \<rightharpoonup> ref"
  implicitMap :: "'k \<rightharpoonup> ref"
  storeWrapper :: ref

text \<open>
  Modelled from the spec: the class \<^verbatim>\<open>Relationships\<close> (\<^verbatim>\<open>./create\<close>) is not among the
  sources. Section 3: a container is owned by one identifier and maps a relationship name
  to its Relationship. The constructor call \<^verbatim>\<open>new Relationships(this, identifier)\<close> of
  \<^verbatim>\<open>Graph.get\<close> gives it the graph and the identifier.
\<close>

record 'k Relationships =
  rs_graph :: ref
  rs_identifier :: 'k
  initializedRelationships :: "string \<rightharpoonup> ref"

text \<open>
  Modelled from the spec: the class \<^verbatim>\<open>Relationship\<close> (\<^verbatim>\<open>./relationship\<close>) is not among
  the sources. Section 3 gives it an owning identifier, a name and a kind. The canonical
  state machine of section 4.3 is abstracted to the sequence of payloads the relationship
  has been handed by \<^verbatim>\<open>push\<close>, oldest first.
\<close>

record ('k, 'p) Relationship =
  kind :: kind
  rel_identifier :: 'k
  rel_key :: string
  canonicalUpdates :: "'p list"

text \<open>
  The program state. \<open>Graphs\<close> is the module's \<^verbatim>\<open>WeakMap\<close> from store wrappers to graphs.
  The run loop (\<^verbatim>\<open>store._backburner\<close>) has two components: \<open>currentInstance\<close> tells whether
  a run loop is open (the library's \<^verbatim>\<open>currentInstance\<close> is not \<^verbatim>\<open>null\<close>), and
  \<open>flushRelationships\<close> is its queue of that name: the graphs whose \<^verbatim>\<open>flush\<close> has been
  scheduled and has not run yet. \<open>applied\<close> is a history variable, read by no function of
  the program: the calls of \<^verbatim>\<open>Relationship.push\<close> made so far, in order.
\<close>

record ('k, 'p) world =
  Graphs :: "ref \<rightharpoonup> ref"
  graphs :: "ref \<rightharpoonup> 'k Graph"
  containers :: "ref \<rightharpoonup> 'k Relationships"
  relationships :: "ref \<rightharpoonup> ('k, 'p) Relationship"
  arrays :: "ref \<rightharpoonup> 'p qelem list"
  dicts :: "ref \<rightharpoonup> (string \<rightharpoonup> ref)"
  nextRef :: ref
  currentInstance :: bool
  flushRelationships :: "ref list"
  applied :: "(ref \<times> 'p) list"

definition init :: "('k, 'p) world" where
  "init = \<lparr> Graphs = Map.empty, graphs = Map.empty, containers = Map.empty,
            relationships = Map.empty, arrays = Map.empty, dicts = Map.empty,
            nextRef = 0, currentInstance = False, flushRelationships = [], applied = [] \<rparr>"

text \<open>\<^verbatim>\<open>this._queued[relationship.kind]\<close>\<close>

fun queued_at :: "kind \<Rightarrow> queues \<Rightarrow> ref" where
  "queued_at BelongsTo q = belongsTo q"
| "queued_at HasMany q = hasMany q"

section \<open>graphFor and the Graph class\<close>

text \<open>
  \<^verbatim>\<open>new Graph(store)\<close>: the field initialisers allocate the two queue arrays; the flag is
  false and both maps are empty.
\<close>

definition new_Graph :: "ref \<Rightarrow> ('k, 'p) world \<Rightarrow> ref \<times> ('k, 'p) world" where
  "new_Graph store w =
     (let g = nextRef w in
      (g, w\<lparr> graphs := (graphs w)(g \<mapsto>
                 \<lparr> queued = \<lparr> belongsTo = g + 1, hasMany = g + 2 \<rparr>, nextFlush = False,
                   identifiers = Map.empty, implicitMap = Map.empty, storeWrapper = store \<rparr>),
             arrays := (arrays w)(g + 1 \<mapsto> [], g + 2 \<mapsto> []),
             nextRef := g + 3 \<rparr>))"

definition graphFor :: "ref \<Rightarrow> ('k, 'p) world \<Rightarrow> ref \<times> ('k, 'p) world" where
  "graphFor store w =
     (case Graphs w store of
        Some graph \<Rightarrow> (graph, w)
      | None \<Rightarrow>
          (let (graph, w1) = new_Graph store w
           in (graph, w1\<lparr> Graphs := (Graphs w1)(store \<mapsto> graph) \<rparr>)))"

text \<open>
  \<^verbatim>\<open>Graph.get\<close>. A method call on a reference that holds no graph cannot happen in the
  program (\<^verbatim>\<open>this\<close> is a graph); the model answers \<open>TypeError\<close> there.
\<close>

definition Graph_get ::
  "ref \<Rightarrow> 'k \<Rightarrow> ('k, 'p) world \<Rightarrow> error + (ref \<times> ('k, 'p) world)" where
  "Graph_get this identifier w =
     (case graphs w this of
        None \<Rightarrow> Inl TypeError
      | Some G \<Rightarrow>
          (case identifiers G identifier of
             Some rs \<Rightarrow> Inr (rs, w)
           | None \<Rightarrow>
               (let rs = nextRef w in
                Inr (rs, w\<lparr> containers := (containers w)(rs \<mapsto>
                                \<lparr> rs_graph = this, rs_identifier = identifier,
                                  initializedRelationships = Map.empty \<rparr>),
                            graphs := (graphs w)(this \<mapsto>
                                G\<lparr> identifiers := (identifiers G)(identifier \<mapsto> rs) \<rparr>),
                            nextRef := rs + 1 \<rparr>))))"

text \<open>\<^verbatim>\<open>Graph.getImplicit\<close>; the dictionary is \<^verbatim>\<open>Object.create(null)\<close>.\<close>

definition Graph_getImplicit ::
  "ref \<Rightarrow> 'k \<Rightarrow> ('k, 'p) world \<Rightarrow> error + (ref \<times> ('k, 'p) world)" where
  "Graph_getImplicit this identifier w =
     (case graphs w this of
        None \<Rightarrow> Inl TypeError
      | Some G \<Rightarrow>
          (case implicitMap G identifier of
             Some d \<Rightarrow> Inr (d, w)
           | None \<Rightarrow>
               (let d = nextRef w in
                Inr (d, w\<lparr> dicts := (dicts w)(d \<mapsto> Map.empty),
                           graphs := (graphs w)(this \<mapsto>
                               G\<lparr> implicitMap := (implicitMap G)(identifier \<mapsto> d) \<rparr>),
                           nextRef := d + 1 \<rparr>))))"

text \<open>
  Modelled from the spec: \<^verbatim>\<open>Relationships.get\<close> (\<^verbatim>\<open>./create\<close>) is not among the sources.
  Sections 2 and 3: the container maps a relationship name to its Relationship, which
  materialises lazily the first time the name is accessed and persists. The kind of the
  new relationship comes from the schema of the owning identifier, the parameter \<open>schema\<close>.
\<close>

definition Relationships_get ::
  "('k \<Rightarrow> string \<Rightarrow> kind) \<Rightarrow> ref \<Rightarrow> string \<Rightarrow> ('k, 'p) world
     \<Rightarrow> error + (ref \<times> ('k, 'p) world)" where
  "Relationships_get schema this propertyName w =
     (case containers w this of
        None \<Rightarrow> Inl TypeError
      | Some C \<Rightarrow>
          (case initializedRelationships C propertyName of
             Some r \<Rightarrow> Inr (r, w)
           | None \<Rightarrow>
               (let r = nextRef w in
                Inr (r, w\<lparr> relationships := (relationships w)(r \<mapsto>
                               \<lparr> kind = schema (rs_identifier C) propertyName,
                                 rel_identifier = rs_identifier C, rel_key = propertyName,
                                 canonicalUpdates = [] \<rparr>),
                           containers := (containers w)(this \<mapsto>
                               C\<lparr> initializedRelationships :=
                                    (initializedRelationships C)(propertyName \<mapsto> r) \<rparr>),
                           nextRef := r + 1 \<rparr>))))"

text \<open>
  Modelled from the spec: the run loop (\<^verbatim>\<open>backburner\<close>) is an external library.
  Section 4.2: pushing an item when no flush is pending enqueues a deferred flush.
  \<^verbatim>\<open>schedule('flushRelationships', this, this.flush)\<close> appends the call to the run loop's
  queue, to be run when the run loop ends.
\<close>

definition schedule :: "ref \<Rightarrow> ('k, 'p) world \<Rightarrow> ('k, 'p) world" where
  "schedule this w = w\<lparr> flushRelationships := flushRelationships w @ [this] \<rparr>"

text \<open>
  \<^verbatim>\<open>Graph.push\<close> as it runs while a run loop is open. \<^verbatim>\<open>join\<close> then calls its callback and
  nothing else, so the statement \<^verbatim>\<open>backburner.join(() => { backburner.schedule(...) })\<close> is
  the call of \<^verbatim>\<open>schedule\<close>. This is the push that a relationship makes during a flush:
  the run loop that runs the flush is open until its queue is empty. \<open>Graph_push\<close> below is
  the method for both states of the run loop, and \<open>Graph_push_open\<close> proves that the two
  agree while a run loop is open.
\<close>

definition Graph_push_in_loop ::
  "('k \<Rightarrow> string \<Rightarrow> kind) \<Rightarrow> ref \<Rightarrow> 'k \<Rightarrow> string \<Rightarrow> 'p \<Rightarrow> ('k, 'p) world
     \<Rightarrow> error + ('k, 'p) world" where
  "Graph_push_in_loop schema this identifier propertyName payload w =
     (case Graph_get this identifier w of
        Inl e \<Rightarrow> Inl e
      | Inr (rs, w1) \<Rightarrow>
     (case Relationships_get schema rs propertyName w1 of
        Inl e \<Rightarrow> Inl e
      | Inr (relationship, w2) \<Rightarrow>
     (case (relationships w2 relationship, graphs w2 this) of
        (Some rel, Some G) \<Rightarrow>
          (let a = queued_at (kind rel) (queued G) in
           case arrays w2 a of
             None \<Rightarrow> Inl TypeError
           | Some xs \<Rightarrow>
               (let w3 = w2\<lparr> arrays := (arrays w2)(a \<mapsto>
                                xs @ [QRelationship relationship, QPayload payload]) \<rparr>
                in if nextFlush G = False
                   then (let w4 = schedule this w3
                         in Inr (w4\<lparr> graphs := (graphs w4)(this \<mapsto> G\<lparr> nextFlush := True \<rparr>) \<rparr>))
                   else Inr w3))
      | _ \<Rightarrow> Inl TypeError)))"

text \<open>
  Modelled from the spec: \<^verbatim>\<open>Relationship.push\<close> (\<^verbatim>\<open>./relationship\<close>) is not among the
  sources. It applies the canonical update to the relationship (section 2:
  flush \<open>\<rightarrow>\<close> \<^verbatim>\<open>Relationship.updateCanonical\<close>). The calls back into \<^verbatim>\<open>Graph.push\<close> that
  an update makes while it runs are the parameter \<open>reentry\<close>; section 4.3 has the inverse
  updated directly, without re-enqueuing, which is \<open>no_reentry\<close>. \<^verbatim>\<open>Relationship.push\<close> is
  called by \<^verbatim>\<open>flush\<close>, which the run loop calls while it is open, so these calls are those
  of \<open>Graph_push_in_loop\<close>.
\<close>

fun push_all ::
  "('k \<Rightarrow> string \<Rightarrow> kind) \<Rightarrow> ref \<Rightarrow> ('k \<times> string \<times> 'p) list \<Rightarrow> ('k, 'p) world
     \<Rightarrow> error + ('k, 'p) world" where
  "push_all schema g [] w = Inr w"
| "push_all schema g ((identifier, propertyName, payload) # rest) w =
     (case Graph_push_in_loop schema g identifier propertyName payload w of
        Inl e \<Rightarrow> Inl e
      | Inr w1 \<Rightarrow> push_all schema g rest w1)"

definition no_reentry :: "ref \<Rightarrow> 'p \<Rightarrow> ('k \<times> string \<times> 'p) list" where
  "no_reentry r payload = []"

definition Relationship_push ::
  "('k \<Rightarrow> string \<Rightarrow> kind) \<Rightarrow> (ref \<Rightarrow> 'p \<Rightarrow> ('k \<times> string \<times> 'p) list) \<Rightarrow> ref \<Rightarrow> ref \<Rightarrow> 'p
     \<Rightarrow> ('k, 'p) world \<Rightarrow> error + ('k, 'p) world" where
  "Relationship_push schema reentry graph this payload w =
     (case relationships w this of
        None \<Rightarrow> Inl TypeError
      | Some rel \<Rightarrow>
          push_all schema graph (reentry this payload)
            (w\<lparr> relationships := (relationships w)(this \<mapsto>
                    rel\<lparr> canonicalUpdates := canonicalUpdates rel @ [payload] \<rparr>),
                applied := applied w @ [(this, payload)] \<rparr>))"

text \<open>
  The two loops of \<^verbatim>\<open>Graph.flush\<close>:
  \<^verbatim>\<open>for (let i = 0; i < array.length; i += 2) { array[i].push(array[i + 1]); }\<close>.
  The array is read from the store at every iteration, as the program does, so a push
  that reached the array being drained would be seen by the loop. \<open>None\<close> is a loop
  that does not return. An element that is not a relationship has no method \<^verbatim>\<open>push\<close>.
\<close>

partial_function (option) drain ::
  "('k \<Rightarrow> string \<Rightarrow> kind) \<Rightarrow> (ref \<Rightarrow> 'p \<Rightarrow> ('k \<times> string \<times> 'p) list) \<Rightarrow> ref \<Rightarrow> ref \<Rightarrow> nat
     \<Rightarrow> ('k, 'p) world \<Rightarrow> (error + ('k, 'p) world) option" where
  "drain schema reentry graph array i w =
     (case arrays w array of
        None \<Rightarrow> Some (Inl TypeError)
      | Some xs \<Rightarrow>
          if i < length xs then
            (case xs ! i of
               QPayload _ \<Rightarrow> Some (Inl TypeError)
             | QRelationship r \<Rightarrow>
                 if i + 1 < length xs then
                   (case xs ! (i + 1) of
                      QRelationship _ \<Rightarrow> Some (Inl TypeError)
                    | QPayload payload \<Rightarrow>
                        (case Relationship_push schema reentry graph r payload w of
                           Inl e \<Rightarrow> Some (Inl e)
                         | Inr w1 \<Rightarrow> drain schema reentry graph array (i + 2) w1))
                 else Some (Inl TypeError))
          else Some (Inr w))"

text \<open>\<^verbatim>\<open>Graph.flush\<close>\<close>

definition flush ::
  "('k \<Rightarrow> string \<Rightarrow> kind) \<Rightarrow> (ref \<Rightarrow> 'p \<Rightarrow> ('k \<times> string \<times> 'p) list) \<Rightarrow> ref
     \<Rightarrow> ('k, 'p) world \<Rightarrow> (error + ('k, 'p) world) option" where
  "flush schema reentry this w =
     (case graphs w this of
        None \<Rightarrow> Some (Inl TypeError)
      | Some G \<Rightarrow>
          (let old = queued G;
               n = nextRef w;
               w1 = w\<lparr> graphs := (graphs w)(this \<mapsto>
                          G\<lparr> nextFlush := False,
                            queued := \<lparr> belongsTo = n, hasMany = n + 1 \<rparr> \<rparr>),
                      arrays := (arrays w)(n \<mapsto> [], n + 1 \<mapsto> []),
                      nextRef := n + 2 \<rparr>
           in case drain schema reentry this (hasMany old) 0 w1 of
                None \<Rightarrow> None
              | Some (Inl e) \<Rightarrow> Some (Inl e)
              | Some (Inr w2) \<Rightarrow> drain schema reentry this (belongsTo old) 0 w2))"

text \<open>
  Modelled from the spec: the run loop is an external library. It runs the first scheduled
  flush.
\<close>

definition run_scheduled ::
  "('k \<Rightarrow> string \<Rightarrow> kind) \<Rightarrow> (ref \<Rightarrow> 'p \<Rightarrow> ('k \<times> string \<times> 'p) list)
     \<Rightarrow> ('k, 'p) world \<Rightarrow> (error + ('k, 'p) world) option" where
  "run_scheduled schema reentry w =
     (case flushRelationships w of
        [] \<Rightarrow> Some (Inr w)
      | g # rest \<Rightarrow> flush schema reentry g (w\<lparr> flushRelationships := rest \<rparr>))"

text \<open>
  Modelled from the spec: the run loop is an external library. Section 5 has a turn-based
  queue of deferred tasks; the library documents the end of a run loop (\<^verbatim>\<open>backburner.end\<close>)
  as flushing the queue, including what the tasks schedule while they run, after which the
  run loop has no instance any more. \<open>None\<close> is a run loop whose queue never becomes empty.
\<close>

partial_function (option) backburner_end ::
  "('k \<Rightarrow> string \<Rightarrow> kind) \<Rightarrow> (ref \<Rightarrow> 'p \<Rightarrow> ('k \<times> string \<times> 'p) list)
     \<Rightarrow> ('k, 'p) world \<Rightarrow> (error + ('k, 'p) world) option" where
  "backburner_end schema reentry w =
     (case flushRelationships w of
        [] \<Rightarrow> Some (Inr (w\<lparr> currentInstance := False \<rparr>))
      | g # rest \<Rightarrow>
          (case flush schema reentry g (w\<lparr> flushRelationships := rest \<rparr>) of
             None \<Rightarrow> None
           | Some (Inl e) \<Rightarrow> Some (Inl e)
           | Some (Inr w1) \<Rightarrow> backburner_end schema reentry w1))"

text \<open>
  Modelled from the spec: \<^verbatim>\<open>backburner.join(callback)\<close>, of the same external library, as
  the library documents it. When a run loop is open the callback is called in it. When
  none is open, \<^verbatim>\<open>join\<close> is \<^verbatim>\<open>run\<close>: it begins a run loop, calls the callback and ends the
  run loop, which flushes the queue before \<^verbatim>\<open>join\<close> returns. The comment in \<^verbatim>\<open>Graph.push\<close>
  says that the call of \<^verbatim>\<open>join\<close> is kept for callers that have no run loop open. The
  callback of \<^verbatim>\<open>Graph.push\<close> cannot fail, so it is a function on states.
\<close>

definition backburner_join ::
  "('k \<Rightarrow> string \<Rightarrow> kind) \<Rightarrow> (ref \<Rightarrow> 'p \<Rightarrow> ('k \<times> string \<times> 'p) list)
     \<Rightarrow> (('k, 'p) world \<Rightarrow> ('k, 'p) world) \<Rightarrow> ('k, 'p) world
     \<Rightarrow> (error + ('k, 'p) world) option" where
  "backburner_join schema reentry callback w =
     (if currentInstance w then Some (Inr (callback w))
      else backburner_end schema reentry (callback (w\<lparr> currentInstance := True \<rparr>)))"

text \<open>
  \<^verbatim>\<open>Graph.push\<close>. The update is appended to the queue array, then \<^verbatim>\<open>join\<close> is called when
  the flag is clear, and the flag is set after \<^verbatim>\<open>join\<close> has returned, on the graph as it is
  then.
\<close>

definition Graph_push ::
  "('k \<Rightarrow> string \<Rightarrow> kind) \<Rightarrow> (ref \<Rightarrow> 'p \<Rightarrow> ('k \<times> string \<times> 'p) list) \<Rightarrow> ref \<Rightarrow> 'k \<Rightarrow> string
     \<Rightarrow> 'p \<Rightarrow> ('k, 'p) world \<Rightarrow> (error + ('k, 'p) world) option" where
  "Graph_push schema reentry this identifier propertyName payload w =
     (case Graph_get this identifier w of
        Inl e \<Rightarrow> Some (Inl e)
      | Inr (rs, w1) \<Rightarrow>
     (case Relationships_get schema rs propertyName w1 of
        Inl e \<Rightarrow> Some (Inl e)
      | Inr (relationship, w2) \<Rightarrow>
     (case (relationships w2 relationship, graphs w2 this) of
        (Some rel, Some G) \<Rightarrow>
          (let a = queued_at (kind rel) (queued G) in
           case arrays w2 a of
             None \<Rightarrow> Some (Inl TypeError)
           | Some xs \<Rightarrow>
               (let w3 = w2\<lparr> arrays := (arrays w2)(a \<mapsto>
                                xs @ [QRelationship relationship, QPayload payload]) \<rparr>
                in if nextFlush G = False
                   then (case backburner_join schema reentry (schedule this) w3 of
                           None \<Rightarrow> None
                         | Some (Inl e) \<Rightarrow> Some (Inl e)
                         | Some (Inr w4) \<Rightarrow>
                             (case graphs w4 this of
                                None \<Rightarrow> Some (Inl TypeError)
                              | Some G4 \<Rightarrow>
                                  Some (Inr (w4\<lparr> graphs := (graphs w4)(this \<mapsto>
                                                   G4\<lparr> nextFlush := True \<rparr>) \<rparr>))))
                   else Some (Inr w3)))
      | _ \<Rightarrow> Some (Inl TypeError))))"

text \<open>A sequence of calls of \<^verbatim>\<open>Graph.push\<close> on one graph.\<close>

fun Graph_push_all ::
  "('k \<Rightarrow> string \<Rightarrow> kind) \<Rightarrow> (ref \<Rightarrow> 'p \<Rightarrow> ('k \<times> string \<times> 'p) list) \<Rightarrow> ref
     \<Rightarrow> ('k \<times> string \<times> 'p) list \<Rightarrow> ('k, 'p) world \<Rightarrow> (error + ('k, 'p) world) option" where
  "Graph_push_all schema reentry g [] w = Some (Inr w)"
| "Graph_push_all schema reentry g ((identifier, propertyName, payload) # rest) w =
     (case Graph_push schema reentry g identifier propertyName payload w of
        None \<Rightarrow> None
      | Some (Inl e) \<Rightarrow> Some (Inl e)
      | Some (Inr w1) \<Rightarrow> Graph_push_all schema reentry g rest w1)"

section \<open>Well-formed program states\<close>

text \<open>
  The lookup the program performs without creating anything: the relationship that the
  graph \<open>g\<close> holds for an identifier and a relationship name.
\<close>

definition relationship_of :: "('k, 'p) world \<Rightarrow> ref \<Rightarrow> 'k \<Rightarrow> string \<Rightarrow> ref option" where
  "relationship_of w g i n =
     (case graphs w g of
        None \<Rightarrow> None
      | Some G \<Rightarrow>
          (case identifiers G i of
             None \<Rightarrow> None
           | Some c \<Rightarrow>
               (case containers w c of
                  None \<Rightarrow> None
                | Some C \<Rightarrow> initializedRelationships C n)))"

text \<open>The array that \<^verbatim>\<open>push(relationship, payload)\<close> builds from a list of pairs.\<close>

fun flat :: "(ref \<times> 'p) list \<Rightarrow> 'p qelem list" where
  "flat [] = []"
| "flat ((r, p) # ps) = QRelationship r # QPayload p # flat ps"

text \<open>The payloads queued in an array for the relationship \<open>r\<close>, in the array's order.\<close>

fun payloads_for :: "ref \<Rightarrow> 'p qelem list \<Rightarrow> 'p list" where
  "payloads_for r (QRelationship r' # QPayload p # xs) =
     (if r' = r then p # payloads_for r xs else payloads_for r xs)"
| "payloads_for r xs = []"

text \<open>No object lives at a reference that has not been allocated yet.\<close>

definition bounded :: "('k, 'p) world \<Rightarrow> bool" where
  "bounded w \<longleftrightarrow>
     (\<forall>r. nextRef w \<le> r \<longrightarrow>
        graphs w r = None \<and> containers w r = None \<and> relationships w r = None \<and>
        arrays w r = None \<and> dicts w r = None)"

text \<open>The \<^verbatim>\<open>WeakMap\<close> holds, for a store wrapper, the graph constructed with it.\<close>

definition graphs_ok :: "('k, 'p) world \<Rightarrow> bool" where
  "graphs_ok w \<longleftrightarrow>
     (\<forall>s g. Graphs w s = Some g \<longrightarrow> (\<exists>G. graphs w g = Some G \<and> storeWrapper G = s))"

text \<open>
  Each queue array of a graph alternates relationship and payload, and holds live
  relationships of its own kind only.
\<close>

definition queues_ok :: "('k, 'p) world \<Rightarrow> bool" where
  "queues_ok w \<longleftrightarrow>
     (\<forall>g G k. graphs w g = Some G \<longrightarrow>
        (\<exists>ps. arrays w (queued_at k (queued G)) = Some (flat ps) \<and>
              (\<forall>(r, p) \<in> set ps. \<exists>rel. relationships w r = Some rel \<and> kind rel = k)))"

text \<open>No queue array is shared, between two graphs or between the two kinds.\<close>

definition queues_distinct :: "('k, 'p) world \<Rightarrow> bool" where
  "queues_distinct w \<longleftrightarrow>
     (\<forall>g G g' G' k k'. graphs w g = Some G \<longrightarrow> graphs w g' = Some G' \<longrightarrow>
        queued_at k (queued G) = queued_at k' (queued G') \<longrightarrow> g = g' \<and> k = k')"

text \<open>A container registered for an identifier was constructed by that graph for it.\<close>

definition identifiers_ok :: "('k, 'p) world \<Rightarrow> bool" where
  "identifiers_ok w \<longleftrightarrow>
     (\<forall>g G i c. graphs w g = Some G \<longrightarrow> identifiers G i = Some c \<longrightarrow>
        (\<exists>C. containers w c = Some C \<and> rs_graph C = g \<and> rs_identifier C = i))"

definition rels_ok :: "('k \<Rightarrow> string \<Rightarrow> kind) \<Rightarrow> ('k, 'p) world \<Rightarrow> bool" where
  "rels_ok schema w \<longleftrightarrow>
     (\<forall>c C n r. containers w c = Some C \<longrightarrow> initializedRelationships C n = Some r \<longrightarrow>
        (\<exists>rel. relationships w r = Some rel \<and> kind rel = schema (rs_identifier C) n \<and>
               rel_identifier rel = rs_identifier C \<and> rel_key rel = n))"

text \<open>A relationship is held by one container, under one name.\<close>

definition rels_inj :: "('k, 'p) world \<Rightarrow> bool" where
  "rels_inj w \<longleftrightarrow>
     (\<forall>c C n c' C' n' r. containers w c = Some C \<longrightarrow> initializedRelationships C n = Some r \<longrightarrow>
        containers w c' = Some C' \<longrightarrow> initializedRelationships C' n' = Some r \<longrightarrow>
        c = c' \<and> n = n')"

definition wf :: "('k \<Rightarrow> string \<Rightarrow> kind) \<Rightarrow> ('k, 'p) world \<Rightarrow> bool" where
  "wf schema w \<longleftrightarrow>
     bounded w \<and> graphs_ok w \<and> queues_ok w \<and> queues_distinct w \<and> identifiers_ok w \<and>
     rels_ok schema w \<and> rels_inj w"

text \<open>
  What no operation undoes: registered graphs, containers and relationships stay where
  they are, and a relationship keeps its kind, identifier and name.
\<close>

definition extends :: "('k, 'p) world \<Rightarrow> ('k, 'p) world \<Rightarrow> bool" where
  "extends w w' \<longleftrightarrow>
     nextRef w \<le> nextRef w' \<and>
     (\<forall>s g. Graphs w s = Some g \<longrightarrow> Graphs w' s = Some g) \<and>
     (\<forall>g G. graphs w g = Some G \<longrightarrow>
        (\<exists>G'. graphs w' g = Some G' \<and> storeWrapper G' = storeWrapper G \<and>
              (\<forall>i c. identifiers G i = Some c \<longrightarrow> identifiers G' i = Some c))) \<and>
     (\<forall>c C. containers w c = Some C \<longrightarrow>
        (\<exists>C'. containers w' c = Some C' \<and> rs_graph C' = rs_graph C \<and>
              rs_identifier C' = rs_identifier C \<and>
              (\<forall>n r. initializedRelationships C n = Some r \<longrightarrow>
                     initializedRelationships C' n = Some r))) \<and>
     (\<forall>r rel. relationships w r = Some rel \<longrightarrow>
        (\<exists>rel'. relationships w' r = Some rel' \<and> kind rel' = kind rel \<and>
                rel_identifier rel' = rel_identifier rel \<and> rel_key rel' = rel_key rel))"

text \<open>
  The operations of the program as a step relation. A caller may open a run loop and end
  it. \<^verbatim>\<open>flush\<close> has no caller but the run loop, so it runs as a scheduled task.
\<close>

inductive step ::
  "('k \<Rightarrow> string \<Rightarrow> kind) \<Rightarrow> (ref \<Rightarrow> 'p \<Rightarrow> ('k \<times> string \<times> 'p) list)
     \<Rightarrow> ('k, 'p) world \<Rightarrow> ('k, 'p) world \<Rightarrow> bool"
  for schema reentry where
    step_graphFor: "graphFor s w = (g, w') \<Longrightarrow> step schema reentry w w'"
  | step_get: "Graph_get g i w = Inr (c, w') \<Longrightarrow> step schema reentry w w'"
  | step_getImplicit: "Graph_getImplicit g i w = Inr (d, w') \<Longrightarrow> step schema reentry w w'"
  | step_relationship: "Relationships_get schema c n w = Inr (r, w') \<Longrightarrow> step schema reentry w w'"
  | step_push: "Graph_push schema reentry g i n p w = Some (Inr w') \<Longrightarrow> step schema reentry w w'"
  | step_begin: "\<not> currentInstance w \<Longrightarrow> step schema reentry w (w\<lparr> currentInstance := True \<rparr>)"
  | step_run: "run_scheduled schema reentry w = Some (Inr w') \<Longrightarrow> step schema reentry w w'"
  | step_end: "currentInstance w \<Longrightarrow> backburner_end schema reentry w = Some (Inr w') \<Longrightarrow>
      step schema reentry w w'"

text \<open>
  The effect of a loop of \<^verbatim>\<open>flush\<close> on a snapshot of its array: the queued updates are
  handed to their relationships one after the other.
\<close>

fun apply_updates ::
  "('k \<Rightarrow> string \<Rightarrow> kind) \<Rightarrow> (ref \<Rightarrow> 'p \<Rightarrow> ('k \<times> string \<times> 'p) list) \<Rightarrow> ref \<Rightarrow> (ref \<times> 'p) list
     \<Rightarrow> ('k, 'p) world \<Rightarrow> error + ('k, 'p) world" where
  "apply_updates schema reentry g [] w = Inr w"
| "apply_updates schema reentry g ((r, p) # ps) w =
     (case Relationship_push schema reentry g r p w of
        Inl e \<Rightarrow> Inl e
      | Inr w1 \<Rightarrow> apply_updates schema reentry g ps w1)"

text \<open>
  What the two lookups of \<^verbatim>\<open>push\<close> leave alone: queues, flags, the run loop, and every
  relationship that exists; a relationship they create has received no update.
\<close>

definition lookup_frame :: "('k, 'p) world \<Rightarrow> ('k, 'p) world \<Rightarrow> bool" where
  "lookup_frame w w' \<longleftrightarrow>
     arrays w' = arrays w \<and> flushRelationships w' = flushRelationships w \<and>
     applied w' = applied w \<and> Graphs w' = Graphs w \<and>
     (\<forall>g. graphs w g = None \<longrightarrow> graphs w' g = None) \<and>
     (\<forall>g G. graphs w g = Some G \<longrightarrow>
        (\<exists>G'. graphs w' g = Some G' \<and> queued G' = queued G \<and> nextFlush G' = nextFlush G)) \<and>
     (\<forall>r rel. relationships w r = Some rel \<longrightarrow> relationships w' r = Some rel) \<and>
     (\<forall>r rel. relationships w r = None \<longrightarrow> relationships w' r = Some rel \<longrightarrow>
        canonicalUpdates rel = [])"

text \<open>
  The state after the last statements of \<^verbatim>\<open>push\<close> while a run loop is open, in both branches
  of the test.
\<close>

definition enqueue ::
  "ref \<Rightarrow> 'k Graph \<Rightarrow> ref \<Rightarrow> 'p qelem list \<Rightarrow> ref \<Rightarrow> 'p \<Rightarrow> ('k, 'p) world \<Rightarrow> ('k, 'p) world" where
  "enqueue g G a xs r p w =
     w\<lparr> arrays := (arrays w)(a \<mapsto> xs @ [QRelationship r, QPayload p]),
        flushRelationships :=
          (if nextFlush G then flushRelationships w else flushRelationships w @ [g]),
        graphs := (graphs w)(g \<mapsto> G\<lparr> nextFlush := True \<rparr>) \<rparr>"

definition detached :: "('k, 'p) world \<Rightarrow> ref \<Rightarrow> bool" where
  "detached w a \<longleftrightarrow> (\<forall>g G k. graphs w g = Some G \<longrightarrow> queued_at k (queued G) \<noteq> a)"

definition log_update ::
  "ref \<Rightarrow> ('k, 'p) Relationship \<Rightarrow> 'p \<Rightarrow> ('k, 'p) world \<Rightarrow> ('k, 'p) world" where
  "log_update r rel p w =
     w\<lparr> relationships := (relationships w)(r \<mapsto>
            rel\<lparr> canonicalUpdates := canonicalUpdates rel @ [p] \<rparr>),
        applied := applied w @ [(r, p)] \<rparr>"

definition update_frame ::
  "(ref \<times> 'p) list \<Rightarrow> ('k, 'p) world \<Rightarrow> ('k, 'p) world \<Rightarrow> bool" where
  "update_frame ps w w' \<longleftrightarrow>
     applied w' = applied w @ ps \<and> Graphs w' = Graphs w \<and>
     (\<forall>g. graphs w g = None \<longrightarrow> graphs w' g = None) \<and>
     (\<forall>g G. graphs w g = Some G \<longrightarrow> (\<exists>G'. graphs w' g = Some G' \<and> queued G' = queued G)) \<and>
     (\<forall>r rel. relationships w r = Some rel \<longrightarrow>
        (\<exists>rel'. relationships w' r = Some rel' \<and>
           canonicalUpdates rel' =
             canonicalUpdates rel @ map snd (filter (\<lambda>x. fst x = r) ps))) \<and>
     (\<forall>a. detached w a \<longrightarrow> arrays w' a = arrays w a)"

definition push_frame :: "('k, 'p) world \<Rightarrow> ('k, 'p) world \<Rightarrow> bool" where
  "push_frame w w' \<longleftrightarrow>
     applied w' = applied w \<and> Graphs w' = Graphs w \<and>
     (\<forall>g. graphs w g = None \<longrightarrow> graphs w' g = None) \<and>
     (\<forall>g G. graphs w g = Some G \<longrightarrow> (\<exists>G'. graphs w' g = Some G' \<and> queued G' = queued G)) \<and>
     (\<forall>r rel. relationships w r = Some rel \<longrightarrow> relationships w' r = Some rel) \<and>
     (\<forall>r rel. relationships w r = None \<longrightarrow> relationships w' r = Some rel \<longrightarrow>
        canonicalUpdates rel = []) \<and>
     (\<forall>a. detached w a \<longrightarrow> arrays w' a = arrays w a)"

definition flush_begin :: "ref \<Rightarrow> 'k Graph \<Rightarrow> ('k, 'p) world \<Rightarrow> ('k, 'p) world" where
  "flush_begin g G w =
     w\<lparr> graphs := (graphs w)(g \<mapsto>
            G\<lparr> nextFlush := False,
              queued := \<lparr> belongsTo = nextRef w, hasMany = nextRef w + 1 \<rparr> \<rparr>),
        arrays := (arrays w)(nextRef w \<mapsto> [], nextRef w + 1 \<mapsto> []),
        nextRef := nextRef w + 2 \<rparr>"

definition example_schema :: "nat \<Rightarrow> string \<Rightarrow> kind" where
  "example_schema i n = (if n = ''comments'' then HasMany else BelongsTo)"

text \<open>The state after \<^verbatim>\<open>graphFor\<close> for the store wrapper 0. No run loop is open.\<close>

definition one_store :: "(nat, nat) world" where
  "one_store = snd (graphFor 0 init)"

text \<open>
  The state after \<^verbatim>\<open>graphFor\<close> for a second store wrapper, when a caller has then opened a
  run loop.
\<close>

definition two_stores :: "(nat, nat) world" where
  "two_stores = (snd (graphFor 5 one_store))\<lparr> currentInstance := True \<rparr>"

definition pushed_once :: "(nat, nat) world" where
  "pushed_once =
     (case Graph_push example_schema no_reentry 0 7 ''comments'' 42 two_stores of
        Some (Inr w) \<Rightarrow> w | _ \<Rightarrow> two_stores)"

text \<open>
  Two calls of \<^verbatim>\<open>push\<close> on the graph of \<open>one_store\<close>, made while no run loop is open.
\<close>

definition pushed_outside :: "(nat, nat) world" where
  "pushed_outside =
     (case Graph_push example_schema no_reentry 0 7 ''comments'' 1 one_store of
        Some (Inr w) \<Rightarrow> w | _ \<Rightarrow> one_store)"

definition pushed_outside_twice :: "(nat, nat) world" where
  "pushed_outside_twice =
     (case Graph_push example_schema no_reentry 0 7 ''comments'' 2 pushed_outside of
        Some (Inr w) \<Rightarrow> w | _ \<Rightarrow> pushed_outside)"

text \<open>
  \<^verbatim>\<open>record-data-for.ts\<close>: \<^verbatim>\<open>relationshipsFor\<close> and \<^verbatim>\<open>relationshipStateFor\<close>.
\<close>

definition relationshipsFor ::
  "ref \<Rightarrow> 'k \<Rightarrow> ('k, 'p) world \<Rightarrow> error + (ref \<times> ('k, 'p) world)" where
  "relationshipsFor wrapper identifier w =
     (let (graph, w1) = graphFor wrapper w in Graph_get graph identifier w1)"

definition relationshipStateFor ::
  "('k \<Rightarrow> string \<Rightarrow> kind) \<Rightarrow> ref \<Rightarrow> 'k \<Rightarrow> string \<Rightarrow> ('k, 'p) world
     \<Rightarrow> error + (ref \<times> ('k, 'p) world)" where
  "relationshipStateFor schema wrapper identifier propertyName w =
     (case relationshipsFor wrapper identifier w of
        Inl e \<Rightarrow> Inl e
      | Inr (rs, w1) \<Rightarrow> Relationships_get schema rs propertyName w1)"

text \<open>
  The older version of the file (\<^verbatim>\<open>part_002\<close>) also accepts the call shape
  \<^verbatim>\<open>(recordData, key)\<close>, so the values it tests are not typed: an argument may be
  missing, an identifier object, or a string. \<^verbatim>\<open>!x\<close> holds for a missing argument and for
  the empty string.
\<close>

datatype 'i jsval = JUndefined | JIdentifier 'i | JString string

fun truthy :: "'i jsval \<Rightarrow> bool" where
  "truthy JUndefined = False"
| "truthy (JIdentifier i) = True"
| "truthy (JString s) = (s \<noteq> [])"

text \<open>
  A value used as a property name is converted to a string, as JavaScript does on property
  access.
\<close>

fun property_key :: "'i jsval \<Rightarrow> string" where
  "property_key JUndefined = ''undefined''"
| "property_key (JIdentifier i) = ''[object Object]''"
| "property_key (JString s) = s"

text \<open>
  The first argument: an object, which the \<^verbatim>\<open>WeakMap\<close> of graphs keys by its reference, and
  which may carry \<^verbatim>\<open>_internalModel\<close>. Of an internal model the functions read
  \<^verbatim>\<open>identifier\<close> and \<^verbatim>\<open>_recordData.storeWrapper\<close>.
\<close>

datatype 'i wrapper_arg =
  WrapperArg (wrapper_ref: ref) (internalModel_of: "'i internal_model option")
and 'i internal_model =
  InternalModel (im_identifier: "'i jsval") (im_storeWrapper: "'i wrapper_arg")

text \<open>
  \<^verbatim>\<open>upgradeForInternal\<close> is a type cast; it returns its argument.
\<close>

definition upgradeForInternal :: "'i wrapper_arg \<Rightarrow> 'i wrapper_arg" where
  "upgradeForInternal external = external"

definition relationshipsFor_part_002 ::
  "'i wrapper_arg \<Rightarrow> 'i jsval \<Rightarrow> ('i jsval, 'p) world
     \<Rightarrow> error + (ref \<times> ('i jsval, 'p) world)" where
  "relationshipsFor_part_002 wrapper identifier w =
     (if \<not> truthy identifier then
        (case internalModel_of wrapper of
           None \<Rightarrow> Inl TypeError
         | Some internalModel \<Rightarrow>
             (let identifier1 = im_identifier internalModel;
                  wrapper1 = upgradeForInternal (im_storeWrapper internalModel);
                  (graph, w1) = graphFor (wrapper_ref wrapper1) w
              in Graph_get graph identifier1 w1))
      else
        (let (graph, w1) = graphFor (wrapper_ref wrapper) w
         in Graph_get graph identifier w1))"

definition relationshipStateFor_part_002 ::
  "('i jsval \<Rightarrow> string \<Rightarrow> kind) \<Rightarrow> 'i wrapper_arg \<Rightarrow> 'i jsval \<Rightarrow> 'i jsval
     \<Rightarrow> ('i jsval, 'p) world \<Rightarrow> error + (ref \<times> ('i jsval, 'p) world)" where
  "relationshipStateFor_part_002 schema wrapper identifier propertyName w =
     (if \<not> truthy propertyName then
        (case internalModel_of wrapper of
           None \<Rightarrow> Inl TypeError
         | Some internalModel \<Rightarrow>
             (let propertyName1 = identifier;
                  identifier1 = im_identifier internalModel;
                  wrapper1 = upgradeForInternal (im_storeWrapper internalModel)
              in case relationshipsFor_part_002 wrapper1 identifier1 w of
                   Inl e \<Rightarrow> Inl e
                 | Inr (rs, w1) \<Rightarrow>
                     Relationships_get schema rs (property_key propertyName1) w1))
      else
        (case relationshipsFor_part_002 wrapper identifier w of
           Inl e \<Rightarrow> Inl e
         | Inr (rs, w1) \<Rightarrow> Relationships_get schema rs (property_key propertyName) w1))"

text \<open>
  Modelled from the spec: the identifier cache (\<^verbatim>\<open>identifierCacheFor\<close>,
  \<^verbatim>\<open>getOrCreateRecordIdentifier\<close>) is not among the sources; \<^verbatim>\<open>store.ts\<close> only calls it.
  Section 3: a stable identifier has an entity type, a server id that may be absent, and a
  local id. Section 4.1: the cache indexes identifiers by (type, id) and by local id.
  Identifiers are objects compared by reference, so they live in a heap.
\<close>

record StableIdentifier =
  si_type :: string
  si_id :: "string option"
  si_lid :: string

record IdentifierCache =
  byTypeAndId :: "(string \<times> string) \<rightharpoonup> ref"
  byLid :: "string \<rightharpoonup> ref"
  stableIdentifiers :: "ref \<rightharpoonup> StableIdentifier"
  nextIdentifier :: ref
  lidsGenerated :: nat

definition emptyCache :: IdentifierCache where
  "emptyCache = \<lparr> byTypeAndId = Map.empty, byLid = Map.empty, stableIdentifiers = Map.empty,
                   nextIdentifier = 0, lidsGenerated = 0 \<rparr>"

text \<open>
  Modelled from the spec: section 4.1, third case. A new identifier gets a freshly
  generated local id (the generator is the parameter \<open>generateLid\<close>) and is registered under
  the local id and, when the id is known, under (type, id).
\<close>

definition allocateIdentifier ::
  "(nat \<Rightarrow> string) \<Rightarrow> string \<Rightarrow> string option \<Rightarrow> IdentifierCache \<Rightarrow> ref \<times> IdentifierCache" where
  "allocateIdentifier generateLid type id' c =
     (let r = nextIdentifier c; lid = generateLid (lidsGenerated c) in
      (r, c\<lparr> stableIdentifiers := (stableIdentifiers c)(r \<mapsto>
                 \<lparr> si_type = type, si_id = id', si_lid = lid \<rparr>),
             byLid := (byLid c)(lid \<mapsto> r),
             byTypeAndId := (case id' of
                               None \<Rightarrow> byTypeAndId c
                             | Some i \<Rightarrow> (byTypeAndId c)((type, i) \<mapsto> r)),
             nextIdentifier := r + 1,
             lidsGenerated := lidsGenerated c + 1 \<rparr>))"

text \<open>
  Modelled from the spec: section 4.1, \<^verbatim>\<open>getOrCreate(type, id, clientId?)\<close>. If \<open>id\<close> is
  non-null and a cached identifier exists for (type, id), it is returned unchanged; if \<open>id\<close>
  is null and a \<open>clientId\<close> is supplied and already mapped, that identifier is returned;
  otherwise a new identifier is allocated.
\<close>

definition getOrCreate ::
  "(nat \<Rightarrow> string) \<Rightarrow> string \<Rightarrow> string option \<Rightarrow> string option \<Rightarrow> IdentifierCache
     \<Rightarrow> ref \<times> IdentifierCache" where
  "getOrCreate generateLid type id' clientId c =
     (case id' of
        Some i \<Rightarrow>
          (case byTypeAndId c (type, i) of
             Some r \<Rightarrow> (r, c)
           | None \<Rightarrow> allocateIdentifier generateLid type id' c)
      | None \<Rightarrow>
          (case clientId of
             Some l \<Rightarrow>
               (case byLid c l of
                  Some r \<Rightarrow> (r, c)
                | None \<Rightarrow> allocateIdentifier generateLid type id' c)
           | None \<Rightarrow> allocateIdentifier generateLid type id' c))"

text \<open>
  \<^verbatim>\<open>DefaultStore.createRecordDataFor\<close> (\<^verbatim>\<open>store.ts\<close>). With the \<^verbatim>\<open>IDENTIFIERS\<close> feature the
  record data is built on the identifier that the cache returns for
  \<^verbatim>\<open>{ type: modelName, id, lid: clientId }\<close>.
\<close>

datatype RecordData =
  RecordData_identifier ref ref
| RecordData_legacy string "string option" string ref

definition createRecordDataFor ::
  "(nat \<Rightarrow> string) \<Rightarrow> bool \<Rightarrow> string \<Rightarrow> string option \<Rightarrow> string \<Rightarrow> ref \<Rightarrow> IdentifierCache
     \<Rightarrow> RecordData \<times> IdentifierCache" where
  "createRecordDataFor generateLid IDENTIFIERS modelName id' clientId wrapper c =
     (if IDENTIFIERS then
        (let (identifier, c1) = getOrCreate generateLid modelName id' (Some clientId) c
         in (RecordData_identifier identifier wrapper, c1))
      else (RecordData_legacy modelName id' clientId wrapper, c))"

text \<open> Any sequence of further lookups.\<close>

fun lookups ::
  "(nat \<Rightarrow> string) \<Rightarrow> (string \<times> string option \<times> string option) list \<Rightarrow> IdentifierCache
     \<Rightarrow> IdentifierCache" where
  "lookups generateLid [] c = c"
| "lookups generateLid ((type, id', clientId) # rest) c =
     lookups generateLid rest (snd (getOrCreate generateLid type id' clientId c))"

text \<open> Every registered identifier has been allocated.\<close>

definition cache_ok :: "IdentifierCache \<Rightarrow> bool" where
  "cache_ok c \<longleftrightarrow>
     (\<forall>k r. byTypeAndId c k = Some r \<longrightarrow> r < nextIdentifier c) \<and>
     (\<forall>l r. byLid c l = Some r \<longrightarrow> r < nextIdentifier c)"

definition cache_grows :: "IdentifierCache \<Rightarrow> IdentifierCache \<Rightarrow> bool" where
  "cache_grows c c' \<longleftrightarrow>
     nextIdentifier c \<le> nextIdentifier c' \<and>
     (\<forall>k r. byTypeAndId c k = Some r \<longrightarrow> byTypeAndId c' k = Some r) \<and>
     (\<forall>r. r < nextIdentifier c \<longrightarrow> stableIdentifiers c' r = stableIdentifiers c r)"

text \<open>
  A state in which three updates are queued on the first graph: two for the to-many
  relationship \<open>comments\<close> and, between them, one for the to-one relationship \<open>author\<close>.
\<close>

definition three_pushes :: "(nat \<times> string \<times> nat) list" where
  "three_pushes = [(7, ''comments'', 1), (7, ''author'', 2), (7, ''comments'', 3)]"

definition pushed_thrice :: "(nat, nat) world" where
  "pushed_thrice =
     (case Graph_push_all example_schema no_reentry 0 three_pushes two_stores of
        Some (Inr w) \<Rightarrow> w | _ \<Rightarrow> two_stores)"

text \<open>
  What a flush of an empty queue leaves as it was: everything but the identity of the two
  (empty) queue arrays of the graph.
\<close>

definition flush_unobservable :: "ref \<Rightarrow> ('k, 'p) world \<Rightarrow> ('k, 'p) world \<Rightarrow> bool" where
  "flush_unobservable g w w' \<longleftrightarrow>
     relationships w' = relationships w \<and> applied w' = applied w \<and>
     containers w' = containers w \<and> dicts w' = dicts w \<and> Graphs w' = Graphs w \<and>
     flushRelationships w' = flushRelationships w \<and>
     (\<forall>g'. g' \<noteq> g \<longrightarrow> graphs w' g' = graphs w g') \<and>
     (\<forall>a xs. arrays w a = Some xs \<longrightarrow> arrays w' a = Some xs) \<and>
     (\<exists>G G'. graphs w g = Some G \<and> graphs w' g = Some G' \<and>
        nextFlush G' = nextFlush G \<and> identifiers G' = identifiers G \<and>
        implicitMap G' = implicitMap G \<and> storeWrapper G' = storeWrapper G \<and>
        arrays w (hasMany (queued G)) = Some [] \<and> arrays w (belongsTo (queued G)) = Some [] \<and>
        arrays w' (hasMany (queued G')) = Some [] \<and>
        arrays w' (belongsTo (queued G')) = Some [])"

text \<open>
  The queue entries that a list of pushes on the graph \<open>g\<close> gives: each push contributes the
  relationship its identifier and name resolve to, with its payload.
\<close>

fun resolve ::
  "('k, 'p) world \<Rightarrow> ref \<Rightarrow> ('k \<times> string \<times> 'p) list \<Rightarrow> (ref \<times> 'p) list" where
  "resolve w g [] = []"
| "resolve w g ((i, n, p) # rest) =
     (case relationship_of w g i n of
        None \<Rightarrow> resolve w g rest
      | Some r \<Rightarrow> (r, p) # resolve w g rest)"

text \<open> The pushes whose relationship is of kind \<open>k\<close>.\<close>

definition of_kind ::
  "('k \<Rightarrow> string \<Rightarrow> kind) \<Rightarrow> kind \<Rightarrow> ('k \<times> string \<times> 'p) list \<Rightarrow> ('k \<times> string \<times> 'p) list" where
  "of_kind schema k pushes = filter (\<lambda>(i, n, p). schema i n = k) pushes"

text \<open>
  What a list of pushes on the graph \<open>g\<close>, made while a run loop is open, does to the
  graph's queue and to the run loop:
  every push resolves; the queue arrays are the same objects and have the entries of the
  pushes appended, in order; the flag is set once there is a push; and one flush is
  scheduled exactly when the flag was clear and there is a push.
\<close>

definition queue_effect ::
  "('k \<Rightarrow> string \<Rightarrow> kind) \<Rightarrow> ref \<Rightarrow> ('k \<times> string \<times> 'p) list
     \<Rightarrow> ('k, 'p) world \<Rightarrow> ('k, 'p) world \<Rightarrow> bool" where
  "queue_effect schema g pushes w w' \<longleftrightarrow>
     (\<forall>(i, n, p) \<in> set pushes. relationship_of w' g i n \<noteq> None) \<and>
     (\<forall>G. graphs w g = Some G \<longrightarrow>
        (\<exists>G'. graphs w' g = Some G' \<and> queued G' = queued G \<and>
              nextFlush G' = (nextFlush G \<or> pushes \<noteq> []) \<and>
              (\<forall>k ps. arrays w (queued_at k (queued G)) = Some (flat ps) \<longrightarrow>
                 arrays w' (queued_at k (queued G)) =
                   Some (flat (ps @ resolve w' g (of_kind schema k pushes)))) \<and>
              flushRelationships w' =
                flushRelationships w @ (if \<not> nextFlush G \<and> pushes \<noteq> [] then [g] else [])))"

text \<open> The pushes that the relationships make while a list of queued updates is applied.\<close>

definition reentrant ::
  "(ref \<Rightarrow> 'p \<Rightarrow> ('k \<times> string \<times> 'p) list) \<Rightarrow> (ref \<times> 'p) list \<Rightarrow> ('k \<times> string \<times> 'p) list" where
  "reentrant reentry ps = concat (map (\<lambda>(r, p). reentry r p) ps)"

text \<open>
  A relationship that calls back into \<^verbatim>\<open>Graph.push\<close>: on the payload 1 it pushes an update
  for the \<open>author\<close> of the identifier 9.
\<close>

definition repush :: "ref \<Rightarrow> nat \<Rightarrow> (nat \<times> string \<times> nat) list" where
  "repush r payload = (if payload = 1 then [(9, ''author'', 5)] else [])"

text \<open> The state of \<open>pushed_thrice\<close> when the run loop has taken the scheduled flush.\<close>

definition flush_taken :: "(nat, nat) world" where
  "flush_taken = pushed_thrice\<lparr> flushRelationships := [] \<rparr>"

text \<open>
  The payloads waiting in the queue of the graph \<open>g\<close> for the relationship \<open>r\<close>, in the order
  of the queue array of the relationship's kind.
\<close>

definition queued_payloads :: "('k, 'p) world \<Rightarrow> ref \<Rightarrow> ref \<Rightarrow> 'p list" where
  "queued_payloads w g r =
     (case graphs w g of
        None \<Rightarrow> []
      | Some G \<Rightarrow>
          (case relationships w r of
             None \<Rightarrow> []
           | Some rel \<Rightarrow>
               (case arrays w (queued_at (kind rel) (queued G)) of
                  None \<Rightarrow> []
                | Some xs \<Rightarrow> payloads_for r xs)))"

text \<open> The payloads that a list of pushes submits for an identifier and a name, in order.\<close>

definition payloads_of :: "'k \<Rightarrow> string \<Rightarrow> ('k \<times> string \<times> 'p) list \<Rightarrow> 'p list" where
  "payloads_of i n pushes =
     map (\<lambda>(i', n', p). p) (filter (\<lambda>(i', n', p). i' = i \<and> n' = n) pushes)"

text \<open> Three pushes for the same relationship.\<close>

definition same_thrice :: "(nat \<times> string \<times> nat) list" where
  "same_thrice = [(7, ''comments'', 1), (7, ''comments'', 2), (7, ''comments'', 3)]"

section \<open>Every operation keeps the state well-formed\<close>

lemmas inv_defs = bounded_def graphs_ok_def queues_ok_def queues_distinct_def identifiers_ok_def rels_ok_def rels_inj_def

lemma wf_init: "wf schema init"
  by (simp add: wf_def init_def inv_defs)

lemma wf_flushRelationships_update [simp]:
  "wf schema (w\<lparr> flushRelationships := x \<rparr>) = wf schema w"
  by (simp add: wf_def inv_defs)

lemma wf_applied_update [simp]:
  "wf schema (w\<lparr> applied := x \<rparr>) = wf schema w"
  by (simp add: wf_def inv_defs)

lemma Graph_get_bounded: "bounded w \<Longrightarrow> Graph_get g i w = Inr (c, w') \<Longrightarrow> bounded w'"
  unfolding bounded_def by (fastforce simp: Graph_get_def Let_def split: option.splits if_splits)

lemma Graph_get_graphs_ok: "graphs_ok w \<Longrightarrow> Graph_get g i w = Inr (c, w') \<Longrightarrow> graphs_ok w'"
  unfolding graphs_ok_def by (fastforce simp: Graph_get_def Let_def split: option.splits if_splits)

lemma Graph_get_queues_ok: "queues_ok w \<Longrightarrow> Graph_get g i w = Inr (c, w') \<Longrightarrow> queues_ok w'"
  unfolding queues_ok_def by (fastforce simp: Graph_get_def Let_def split: option.splits if_splits)

lemma Graph_get_queues_distinct: "queues_distinct w \<Longrightarrow> Graph_get g i w = Inr (c, w') \<Longrightarrow> queues_distinct w'"
  unfolding queues_distinct_def by (fastforce simp: Graph_get_def Let_def split: option.splits if_splits)

lemma Graph_get_identifiers_ok: "bounded w \<Longrightarrow> identifiers_ok w \<Longrightarrow> Graph_get g i w = Inr (c, w') \<Longrightarrow> identifiers_ok w'"
  unfolding identifiers_ok_def bounded_def by (fastforce simp: Graph_get_def Let_def split: option.splits if_splits)

lemma Graph_get_rels_ok: "bounded w \<Longrightarrow> rels_ok schema w \<Longrightarrow> Graph_get g i w = Inr (c, w') \<Longrightarrow> rels_ok schema w'"
  unfolding rels_ok_def bounded_def by (fastforce simp: Graph_get_def Let_def split: option.splits if_splits)

lemma Graph_get_rels_inj: "bounded w \<Longrightarrow> rels_inj w \<Longrightarrow> Graph_get g i w = Inr (c, w') \<Longrightarrow> rels_inj w'"
  unfolding rels_inj_def bounded_def by (fastforce simp: Graph_get_def Let_def split: option.splits if_splits)

lemma Graph_get_extends: "bounded w \<Longrightarrow> Graph_get g i w = Inr (c, w') \<Longrightarrow> extends w w'"
  unfolding extends_def bounded_def by (fastforce simp: Graph_get_def Let_def split: option.splits if_splits)

lemma Relationships_get_bounded:
  "bounded w \<Longrightarrow> Relationships_get schema c n w = Inr (r, w') \<Longrightarrow> bounded w'"
  unfolding bounded_def
  by (fastforce simp: Relationships_get_def Let_def split: option.splits if_splits)

lemma Relationships_get_graphs_ok:
  "bounded w \<Longrightarrow> graphs_ok w \<Longrightarrow> Relationships_get schema c n w = Inr (r, w') \<Longrightarrow> graphs_ok w'"
  unfolding graphs_ok_def bounded_def
  by (fastforce simp: Relationships_get_def Let_def split: option.splits if_splits)

lemma Relationships_get_queues_ok:
  "bounded w \<Longrightarrow> queues_ok w \<Longrightarrow> Relationships_get schema c n w = Inr (r, w') \<Longrightarrow> queues_ok w'"
  unfolding queues_ok_def bounded_def
  by (fastforce simp: Relationships_get_def Let_def split: option.splits if_splits)

lemma Relationships_get_queues_distinct:
  "bounded w \<Longrightarrow> queues_distinct w \<Longrightarrow> Relationships_get schema c n w = Inr (r, w') \<Longrightarrow> queues_distinct w'"
  unfolding queues_distinct_def bounded_def
  by (fastforce simp: Relationships_get_def Let_def split: option.splits if_splits)

lemma Relationships_get_identifiers_ok:
  "bounded w \<Longrightarrow> identifiers_ok w \<Longrightarrow> Relationships_get schema c n w = Inr (r, w') \<Longrightarrow> identifiers_ok w'"
  unfolding identifiers_ok_def bounded_def
  by (fastforce simp: Relationships_get_def Let_def split: option.splits if_splits)

lemma Relationships_get_rels_ok:
  "bounded w \<Longrightarrow> rels_ok schema w \<Longrightarrow> Relationships_get schema c n w = Inr (r, w') \<Longrightarrow> rels_ok schema w'"
  unfolding rels_ok_def bounded_def
  by (fastforce simp: Relationships_get_def Let_def split: option.splits if_splits)

lemma Relationships_get_hit:
  "containers w c = Some C \<Longrightarrow> initializedRelationships C n = Some r \<Longrightarrow>
   Relationships_get schema c n w = Inr (r, w)"
  by (simp add: Relationships_get_def)

lemma Relationships_get_registered:
  assumes "bounded w" "rels_ok schema w" "Relationships_get schema c n w = Inr (r, w')"
    and "containers w' c1 = Some C1" "initializedRelationships C1 n1 = Some r1"
  shows "(c1 = c \<and> n1 = n \<and> r1 = nextRef w \<and> r = nextRef w) \<or>
         (r1 < nextRef w \<and> (\<exists>C0. containers w c1 = Some C0 \<and> initializedRelationships C0 n1 = Some r1))"
proof -
  have old: "r1 < nextRef w"
    if "containers w c1 = Some C0" "initializedRelationships C0 n1 = Some r1" for C0
  proof -
    from assms(2) that obtain rel where "relationships w r1 = Some rel"
      unfolding rels_ok_def by blast
    with assms(1) show ?thesis
      unfolding bounded_def by (metis not_le option.distinct(1))
  qed
  from assms(3) obtain C where C: "containers w c = Some C"
    by (auto simp: Relationships_get_def split: option.splits)
  show ?thesis
  proof (cases "initializedRelationships C n")
    case (Some r0)
    with C assms(3) have "w' = w"
      by (simp add: Relationships_get_def)
    with assms(4,5) old show ?thesis by blast
  next
    case None
    with C assms(3) have r: "r = nextRef w"
      and w': "containers w' = (containers w)(c \<mapsto>
          C\<lparr> initializedRelationships := (initializedRelationships C)(n \<mapsto> nextRef w) \<rparr>)"
      by (auto simp: Relationships_get_def Let_def)
    show ?thesis
    proof (cases "c1 = c \<and> n1 = n")
      case True
      with w' assms(4,5) r show ?thesis by auto
    next
      case False
      with w' assms(4,5) C obtain C0 where
        "containers w c1 = Some C0" "initializedRelationships C0 n1 = Some r1"
        by (auto split: if_splits)
      with old show ?thesis by blast
    qed
  qed
qed

lemma Relationships_get_rels_inj:
  assumes "bounded w" "rels_ok schema w" "rels_inj w"
    and "Relationships_get schema c n w = Inr (r, w')"
  shows "rels_inj w'"
  unfolding rels_inj_def
proof (intro allI impI)
  fix c1 C1 n1 c2 C2 n2 r1
  assume a: "containers w' c1 = Some C1" "initializedRelationships C1 n1 = Some r1"
    "containers w' c2 = Some C2" "initializedRelationships C2 n2 = Some r1"
  note r1 = Relationships_get_registered [OF assms(1,2,4) a(1,2)]
  note r2 = Relationships_get_registered [OF assms(1,2,4) a(3,4)]
  from r1 r2 assms(3) show "c1 = c2 \<and> n1 = n2"
    unfolding rels_inj_def by (elim disjE conjE exE) (simp, simp, simp, blast)
qed

lemma Relationships_get_extends:
  "bounded w \<Longrightarrow> Relationships_get schema c n w = Inr (r, w') \<Longrightarrow> extends w w'"
  unfolding extends_def bounded_def
  by (fastforce simp: Relationships_get_def Let_def split: option.splits if_splits)

lemma Graph_getImplicit_bounded:
  "bounded w \<Longrightarrow> Graph_getImplicit g i w = Inr (d, w') \<Longrightarrow> bounded w'"
  unfolding bounded_def
  by (fastforce simp: Graph_getImplicit_def Let_def split: option.splits if_splits)

lemma Graph_getImplicit_graphs_ok:
  "bounded w \<Longrightarrow> graphs_ok w \<Longrightarrow> Graph_getImplicit g i w = Inr (d, w') \<Longrightarrow> graphs_ok w'"
  unfolding graphs_ok_def bounded_def
  by (fastforce simp: Graph_getImplicit_def Let_def split: option.splits if_splits)

lemma Graph_getImplicit_queues_ok:
  "bounded w \<Longrightarrow> queues_ok w \<Longrightarrow> Graph_getImplicit g i w = Inr (d, w') \<Longrightarrow> queues_ok w'"
  unfolding queues_ok_def bounded_def
  by (fastforce simp: Graph_getImplicit_def Let_def split: option.splits if_splits)

lemma Graph_getImplicit_queues_distinct:
  "bounded w \<Longrightarrow> queues_distinct w \<Longrightarrow> Graph_getImplicit g i w = Inr (d, w') \<Longrightarrow> queues_distinct w'"
  unfolding queues_distinct_def bounded_def
  by (fastforce simp: Graph_getImplicit_def Let_def split: option.splits if_splits)

lemma Graph_getImplicit_identifiers_ok:
  "bounded w \<Longrightarrow> identifiers_ok w \<Longrightarrow> Graph_getImplicit g i w = Inr (d, w') \<Longrightarrow> identifiers_ok w'"
  unfolding identifiers_ok_def bounded_def
  by (fastforce simp: Graph_getImplicit_def Let_def split: option.splits if_splits)

lemma Graph_getImplicit_rels_ok:
  "bounded w \<Longrightarrow> rels_ok schema w \<Longrightarrow> Graph_getImplicit g i w = Inr (d, w') \<Longrightarrow> rels_ok schema w'"
  unfolding rels_ok_def bounded_def
  by (fastforce simp: Graph_getImplicit_def Let_def split: option.splits if_splits)

lemma Graph_getImplicit_rels_inj:
  "bounded w \<Longrightarrow> rels_inj w \<Longrightarrow> Graph_getImplicit g i w = Inr (d, w') \<Longrightarrow> rels_inj w'"
  unfolding rels_inj_def bounded_def
  by (fastforce simp: Graph_getImplicit_def Let_def split: option.splits if_splits)

lemma Graph_getImplicit_extends:
  "bounded w \<Longrightarrow> Graph_getImplicit g i w = Inr (d, w') \<Longrightarrow> extends w w'"
  unfolding extends_def bounded_def
  by (fastforce simp: Graph_getImplicit_def Let_def split: option.splits if_splits)

lemma graphFor_bounded:
  "bounded w \<Longrightarrow> graphFor s w = (g, w') \<Longrightarrow> bounded w'"
  unfolding bounded_def
  by (fastforce simp: graphFor_def new_Graph_def Let_def split: option.splits if_splits)

lemma graphFor_graphs_ok:
  "bounded w \<Longrightarrow> graphs_ok w \<Longrightarrow> graphFor s w = (g, w') \<Longrightarrow> graphs_ok w'"
  unfolding graphs_ok_def bounded_def
  by (fastforce simp: graphFor_def new_Graph_def Let_def split: option.splits if_splits)

lemma queue_array_bounded:
  assumes "bounded w" "queues_ok w" "graphs w g = Some G"
  shows "queued_at k (queued G) < nextRef w"
proof -
  from assms(2,3) obtain ps where "arrays w (queued_at k (queued G)) = Some (flat ps)"
    unfolding queues_ok_def by blast
  with assms(1) show ?thesis
    unfolding bounded_def by (metis not_le option.distinct(1))
qed

lemma graphFor_hit: "Graphs w s = Some g \<Longrightarrow> graphFor s w = (g, w)"
  by (simp add: graphFor_def)

lemma graphFor_miss:
  "Graphs w s = None \<Longrightarrow>
   graphFor s w =
     (nextRef w,
      w\<lparr> graphs := (graphs w)(nextRef w \<mapsto>
            \<lparr> queued = \<lparr> belongsTo = nextRef w + 1, hasMany = nextRef w + 2 \<rparr>,
              nextFlush = False, identifiers = Map.empty, implicitMap = Map.empty,
              storeWrapper = s \<rparr>),
         arrays := (arrays w)(nextRef w + 1 \<mapsto> [], nextRef w + 2 \<mapsto> []),
         nextRef := nextRef w + 3,
         Graphs := (Graphs w)(s \<mapsto> nextRef w) \<rparr>)"
  by (simp add: graphFor_def new_Graph_def Let_def)

lemma graphFor_queues_ok:
  assumes "bounded w" "queues_ok w" "graphFor s w = (g, w')"
  shows "queues_ok w'"
proof (cases "Graphs w s")
  case (Some g0)
  with assms show ?thesis by (simp add: graphFor_def)
next
  case None
  note w' = assms(3) [unfolded graphFor_miss [OF None]]
  show ?thesis
    unfolding queues_ok_def
  proof (intro allI impI)
    fix g1 G1 k
    assume G1: "graphs w' g1 = Some G1"
    show "\<exists>ps. arrays w' (queued_at k (queued G1)) = Some (flat ps) \<and>
            (\<forall>(r, p)\<in>set ps. \<exists>rel. relationships w' r = Some rel \<and> kind rel = k)"
    proof (cases "g1 = nextRef w")
      case True
      with G1 w' have "arrays w' (queued_at k (queued G1)) = Some (flat [])"
        by (cases k) auto
      then show ?thesis by (metis empty_iff list.set(1))
    next
      case False
      with G1 w' have old: "graphs w g1 = Some G1" by auto
      from queue_array_bounded [OF assms(1,2) old]
      have "queued_at k (queued G1) < nextRef w" .
      with w' have "arrays w' (queued_at k (queued G1)) = arrays w (queued_at k (queued G1))"
        and "relationships w' = relationships w"
        by auto
      with assms(2) old show ?thesis
        unfolding queues_ok_def by simp
    qed
  qed
qed

lemma graphFor_queues_distinct:
  assumes "bounded w" "queues_ok w" "queues_distinct w" "graphFor s w = (g, w')"
  shows "queues_distinct w'"
proof (cases "Graphs w s")
  case (Some g0)
  with assms show ?thesis by (simp add: graphFor_def)
next
  case None
  note w' = assms(4) [unfolded graphFor_miss [OF None]]
  have new: "queued_at k (queued G1) = nextRef w + (case k of BelongsTo \<Rightarrow> 1 | HasMany \<Rightarrow> 2)"
    if "graphs w' (nextRef w) = Some G1" for G1 k
    using that w' by (cases k) auto
  have old: "graphs w g1 = Some G1 \<and> queued_at k (queued G1) < nextRef w"
    if "graphs w' g1 = Some G1" "g1 \<noteq> nextRef w" for g1 G1 k
  proof -
    from that w' have "graphs w g1 = Some G1" by auto
    with queue_array_bounded [OF assms(1,2)] show ?thesis by blast
  qed
  show ?thesis
    unfolding queues_distinct_def
  proof (intro allI impI)
    fix g1 G1 g2 G2 k1 k2
    assume a: "graphs w' g1 = Some G1" "graphs w' g2 = Some G2"
      "queued_at k1 (queued G1) = queued_at k2 (queued G2)"
    consider "g1 = nextRef w" "g2 = nextRef w" | "g1 = nextRef w" "g2 \<noteq> nextRef w"
      | "g1 \<noteq> nextRef w" "g2 = nextRef w" | "g1 \<noteq> nextRef w" "g2 \<noteq> nextRef w"
      by blast
    then show "g1 = g2 \<and> k1 = k2"
    proof cases
      case 1
      with a new [of G1 k1] new [of G2 k2] show ?thesis
        by (cases k1; cases k2) auto
    next
      case 2
      with a new [of G1 k1] old [of g2 G2 k2] show ?thesis
        by (cases k1) auto
    next
      case 3
      with a new [of G2 k2] old [of g1 G1 k1] show ?thesis
        by (cases k2) auto
    next
      case 4
      with a old [of g1 G1 k1] old [of g2 G2 k2] assms(3) show ?thesis
        unfolding queues_distinct_def by blast
    qed
  qed
qed

lemma graphFor_identifiers_ok:
  "bounded w \<Longrightarrow> identifiers_ok w \<Longrightarrow> graphFor s w = (g, w') \<Longrightarrow> identifiers_ok w'"
  unfolding identifiers_ok_def bounded_def
  by (fastforce simp: graphFor_def new_Graph_def Let_def split: option.splits if_splits)

lemma graphFor_rels_ok:
  "bounded w \<Longrightarrow> rels_ok schema w \<Longrightarrow> graphFor s w = (g, w') \<Longrightarrow> rels_ok schema w'"
  unfolding rels_ok_def bounded_def
  by (fastforce simp: graphFor_def new_Graph_def Let_def split: option.splits if_splits)

lemma graphFor_rels_inj:
  "bounded w \<Longrightarrow> rels_inj w \<Longrightarrow> graphFor s w = (g, w') \<Longrightarrow> rels_inj w'"
  unfolding rels_inj_def bounded_def
  by (fastforce simp: graphFor_def new_Graph_def Let_def split: option.splits if_splits)

lemma graphFor_extends:
  "bounded w \<Longrightarrow> graphFor s w = (g, w') \<Longrightarrow> extends w w'"
  unfolding extends_def bounded_def
  by (fastforce simp: graphFor_def new_Graph_def Let_def split: option.splits if_splits)

lemma Graph_get_wf:
  assumes "wf schema w" "Graph_get g i' w = Inr (c, w')"
  shows "wf schema w'"
proof -
  from assms(1) have b: "bounded w" and g: "graphs_ok w" and q: "queues_ok w"
    and d: "queues_distinct w" and i: "identifiers_ok w" and r: "rels_ok schema w"
    and j: "rels_inj w"
    by (simp_all add: wf_def)
  show ?thesis
    unfolding wf_def
    using Graph_get_bounded [OF b assms(2)]
      Graph_get_graphs_ok [OF g assms(2)]
      Graph_get_queues_ok [OF q assms(2)]
      Graph_get_queues_distinct [OF d assms(2)]
      Graph_get_identifiers_ok [OF b i assms(2)]
      Graph_get_rels_ok [OF b r assms(2)]
      Graph_get_rels_inj [OF b j assms(2)]
    by simp
qed

lemma Relationships_get_wf:
  assumes "wf schema w" "Relationships_get schema c n w = Inr (r', w')"
  shows "wf schema w'"
proof -
  from assms(1) have b: "bounded w" and g: "graphs_ok w" and q: "queues_ok w"
    and d: "queues_distinct w" and i: "identifiers_ok w" and r: "rels_ok schema w"
    and j: "rels_inj w"
    by (simp_all add: wf_def)
  show ?thesis
    unfolding wf_def
    using Relationships_get_bounded [OF b assms(2)]
      Relationships_get_graphs_ok [OF b g assms(2)]
      Relationships_get_queues_ok [OF b q assms(2)]
      Relationships_get_queues_distinct [OF b d assms(2)]
      Relationships_get_identifiers_ok [OF b i assms(2)]
      Relationships_get_rels_ok [OF b r assms(2)]
      Relationships_get_rels_inj [OF b r j assms(2)]
    by simp
qed

lemma Graph_getImplicit_wf:
  assumes "wf schema w" "Graph_getImplicit g' i' w = Inr (d', w')"
  shows "wf schema w'"
proof -
  from assms(1) have b: "bounded w" and g: "graphs_ok w" and q: "queues_ok w"
    and d: "queues_distinct w" and i: "identifiers_ok w" and r: "rels_ok schema w"
    and j: "rels_inj w"
    by (simp_all add: wf_def)
  show ?thesis
    unfolding wf_def
    using Graph_getImplicit_bounded [OF b assms(2)]
      Graph_getImplicit_graphs_ok [OF b g assms(2)]
      Graph_getImplicit_queues_ok [OF b q assms(2)]
      Graph_getImplicit_queues_distinct [OF b d assms(2)]
      Graph_getImplicit_identifiers_ok [OF b i assms(2)]
      Graph_getImplicit_rels_ok [OF b r assms(2)]
      Graph_getImplicit_rels_inj [OF b j assms(2)]
    by simp
qed

lemma graphFor_wf:
  assumes "wf schema w" "graphFor s w = (g', w')"
  shows "wf schema w'"
proof -
  from assms(1) have b: "bounded w" and g: "graphs_ok w" and q: "queues_ok w"
    and d: "queues_distinct w" and i: "identifiers_ok w" and r: "rels_ok schema w"
    and j: "rels_inj w"
    by (simp_all add: wf_def)
  show ?thesis
    unfolding wf_def
    using graphFor_bounded [OF b assms(2)]
      graphFor_graphs_ok [OF b g assms(2)]
      graphFor_queues_ok [OF b q assms(2)]
      graphFor_queues_distinct [OF b q d assms(2)]
      graphFor_identifiers_ok [OF b i assms(2)]
      graphFor_rels_ok [OF b r assms(2)]
      graphFor_rels_inj [OF b j assms(2)]
    by simp
qed

lemma flat_append: "flat (ps @ qs) = flat ps @ flat qs"
  by (induction ps) auto

lemma lookup_frame_refl: "lookup_frame w w"
  by (simp add: lookup_frame_def)

lemma lookup_frame_trans: "lookup_frame w w1 \<Longrightarrow> lookup_frame w1 w2 \<Longrightarrow> lookup_frame w w2"
  unfolding lookup_frame_def
  apply (intro conjI)
         apply simp
        apply simp
       apply simp
      apply simp
     apply simp
    apply (metis)
   apply simp
  apply (metis option.exhaust)
  done

lemma extends_refl: "extends w w"
  by (simp add: extends_def)

lemma extends_trans:
  assumes a: "extends w w1" and b: "extends w1 w2"
  shows "extends w w2"
  unfolding extends_def
proof (intro conjI allI impI)
  from a b show "nextRef w \<le> nextRef w2"
    by (simp add: extends_def)
next
  fix s g assume "Graphs w s = Some g"
  with a b show "Graphs w2 s = Some g"
    by (simp add: extends_def)
next
  fix g G assume "graphs w g = Some G"
  with a obtain G1 where G1: "graphs w1 g = Some G1" "storeWrapper G1 = storeWrapper G"
    "\<forall>i c. identifiers G i = Some c \<longrightarrow> identifiers G1 i = Some c"
    unfolding extends_def by blast
  from b G1(1) obtain G2 where G2: "graphs w2 g = Some G2" "storeWrapper G2 = storeWrapper G1"
    "\<forall>i c. identifiers G1 i = Some c \<longrightarrow> identifiers G2 i = Some c"
    unfolding extends_def by blast
  from G1 G2 show "\<exists>G'. graphs w2 g = Some G' \<and> storeWrapper G' = storeWrapper G \<and>
      (\<forall>i c. identifiers G i = Some c \<longrightarrow> identifiers G' i = Some c)"
    by simp
next
  fix c C assume "containers w c = Some C"
  with a obtain C1 where C1: "containers w1 c = Some C1" "rs_graph C1 = rs_graph C"
    "rs_identifier C1 = rs_identifier C"
    "\<forall>n r. initializedRelationships C n = Some r \<longrightarrow> initializedRelationships C1 n = Some r"
    unfolding extends_def by blast
  from b C1(1) obtain C2 where C2: "containers w2 c = Some C2" "rs_graph C2 = rs_graph C1"
    "rs_identifier C2 = rs_identifier C1"
    "\<forall>n r. initializedRelationships C1 n = Some r \<longrightarrow> initializedRelationships C2 n = Some r"
    unfolding extends_def by blast
  from C1 C2 show "\<exists>C'. containers w2 c = Some C' \<and> rs_graph C' = rs_graph C \<and>
      rs_identifier C' = rs_identifier C \<and>
      (\<forall>n r. initializedRelationships C n = Some r \<longrightarrow> initializedRelationships C' n = Some r)"
    by simp
next
  fix r rel assume "relationships w r = Some rel"
  with a obtain rel1 where r1: "relationships w1 r = Some rel1" "kind rel1 = kind rel"
    "rel_identifier rel1 = rel_identifier rel" "rel_key rel1 = rel_key rel"
    unfolding extends_def by blast
  from b r1(1) obtain rel2 where r2: "relationships w2 r = Some rel2" "kind rel2 = kind rel1"
    "rel_identifier rel2 = rel_identifier rel1" "rel_key rel2 = rel_key rel1"
    unfolding extends_def by blast
  from r1 r2 show "\<exists>rel'. relationships w2 r = Some rel' \<and> kind rel' = kind rel \<and>
      rel_identifier rel' = rel_identifier rel \<and> rel_key rel' = rel_key rel"
    by simp
qed

lemma Graph_get_lookup_frame:
  "Graph_get g i w = Inr (c, w') \<Longrightarrow> lookup_frame w w'"
  unfolding lookup_frame_def
  by (fastforce simp: Graph_get_def Let_def split: option.splits if_splits)

lemma Relationships_get_lookup_frame:
  "bounded w \<Longrightarrow> Relationships_get schema c n w = Inr (r, w') \<Longrightarrow> lookup_frame w w'"
  unfolding lookup_frame_def bounded_def
  by (fastforce simp: Relationships_get_def Let_def split: option.splits if_splits)

lemma Graph_get_succeeds:
  assumes "graphs w g = Some G"
  shows "\<exists>c w' G'. Graph_get g i w = Inr (c, w') \<and> graphs w' g = Some G' \<and>
           identifiers G' i = Some c"
  using assms by (auto simp: Graph_get_def Let_def split: option.splits)

lemma Relationships_get_succeeds:
  assumes "containers w c = Some C"
  shows "\<exists>r w' C'. Relationships_get schema c n w = Inr (r, w') \<and> containers w' c = Some C' \<and>
           initializedRelationships C' n = Some r \<and> rs_identifier C' = rs_identifier C \<and>
           rs_graph C' = rs_graph C \<and> graphs w' = graphs w"
  using assms by (auto simp: Relationships_get_def Let_def split: option.splits)

lemma wf_nextFlush:
  assumes "wf schema w" "graphs w g = Some G"
  shows "wf schema (w\<lparr> graphs := (graphs w)(g \<mapsto> G\<lparr> nextFlush := b \<rparr>) \<rparr>)"
    (is "wf schema ?w'")
proof -
  from assms(1) have b: "bounded w" and g: "graphs_ok w" and q: "queues_ok w"
    and d: "queues_distinct w" and i: "identifiers_ok w" and r: "rels_ok schema w"
    and j: "rels_inj w"
    by (simp_all add: wf_def)
  have "bounded ?w'"
    using b assms(2) unfolding bounded_def by auto
  moreover have "graphs_ok ?w'"
    using g assms(2) unfolding graphs_ok_def by (fastforce split: if_splits)
  moreover have "queues_ok ?w'"
    using q assms(2) unfolding queues_ok_def by (fastforce split: if_splits)
  moreover have "queues_distinct ?w'"
    using d assms(2) unfolding queues_distinct_def by (fastforce split: if_splits)
  moreover have "identifiers_ok ?w'"
    using i assms(2) unfolding identifiers_ok_def by (fastforce split: if_splits)
  moreover have "rels_ok schema ?w'"
    using r unfolding rels_ok_def by simp
  moreover have "rels_inj ?w'"
    using j unfolding rels_inj_def by simp
  ultimately show ?thesis
    by (simp add: wf_def)
qed

lemma wf_append_queue:
  assumes wf: "wf schema w" and G: "graphs w g = Some G"
    and rel: "relationships w r = Some rel"
    and a: "a = queued_at (kind rel) (queued G)"
    and xs: "arrays w a = Some xs"
  shows "wf schema (w\<lparr> arrays := (arrays w)(a \<mapsto> xs @ [QRelationship r, QPayload p]) \<rparr>)"
    (is "wf schema ?w'")
proof -
  from wf have b: "bounded w" and q: "queues_ok w" and d: "queues_distinct w"
    by (simp_all add: wf_def)
  have arr: "arrays ?w' = (arrays w)(a \<mapsto> xs @ [QRelationship r, QPayload p])"
    and rels: "relationships ?w' = relationships w" and gr: "graphs ?w' = graphs w"
    by simp_all
  have "bounded ?w'"
    using b xs unfolding bounded_def by auto
  moreover have "queues_ok ?w'"
    unfolding queues_ok_def rels gr
  proof (intro allI impI)
    fix g1 G1 k
    assume G1: "graphs w g1 = Some G1"
    from q G1 obtain ps where ps: "arrays w (queued_at k (queued G1)) = Some (flat ps)"
      "\<forall>(r, p)\<in>set ps. \<exists>rel. relationships w r = Some rel \<and> kind rel = k"
      unfolding queues_ok_def by blast
    show "\<exists>ps. arrays ?w' (queued_at k (queued G1)) = Some (flat ps) \<and>
            (\<forall>(r, p)\<in>set ps. \<exists>rel. relationships w r = Some rel \<and> kind rel = k)"
    proof (cases "queued_at k (queued G1) = a")
      case True
      with d G G1 a have k: "k = kind rel"
        unfolding queues_distinct_def by blast
      from True ps(1) xs have "xs = flat ps" by simp
      then have "arrays ?w' (queued_at k (queued G1)) = Some (flat (ps @ [(r, p)]))"
        unfolding arr True by (simp add: flat_append)
      moreover have "\<forall>(r, p)\<in>set (ps @ [(r, p)]). \<exists>rel. relationships w r = Some rel \<and> kind rel = k"
        using ps(2) rel k by auto
      ultimately show ?thesis by blast
    next
      case False
      then have "arrays ?w' (queued_at k (queued G1)) = arrays w (queued_at k (queued G1))"
        unfolding arr by simp
      with ps show ?thesis by (intro exI [of _ ps] conjI) simp_all
    qed
  qed
  moreover have "graphs_ok ?w'" using wf by (simp add: wf_def graphs_ok_def)
  moreover have "queues_distinct ?w'" using wf by (simp add: wf_def queues_distinct_def)
  moreover have "identifiers_ok ?w'" using wf by (simp add: wf_def identifiers_ok_def)
  moreover have "rels_ok schema ?w'" using wf by (simp add: wf_def rels_ok_def)
  moreover have "rels_inj ?w'" using wf by (simp add: wf_def rels_inj_def)
  ultimately show ?thesis
    by (simp add: wf_def)
qed

lemma wf_cong:
  assumes "Graphs w' = Graphs w" "graphs w' = graphs w" "containers w' = containers w"
    and "relationships w' = relationships w" "arrays w' = arrays w" "dicts w' = dicts w"
    and "nextRef w' = nextRef w"
  shows "wf schema w' = wf schema w"
  by (simp add: wf_def bounded_def graphs_ok_def queues_ok_def queues_distinct_def
      identifiers_ok_def rels_ok_def rels_inj_def assms)

lemma wf_enqueue:
  assumes "wf schema w" "graphs w g = Some G" "relationships w r = Some rel"
    and "a = queued_at (kind rel) (queued G)" "arrays w a = Some xs"
  shows "wf schema (enqueue g G a xs r p w)"
proof -
  let ?w1 = "w\<lparr> arrays := (arrays w)(a \<mapsto> xs @ [QRelationship r, QPayload p]) \<rparr>"
  let ?w2 = "?w1\<lparr> graphs := (graphs ?w1)(g \<mapsto> G\<lparr> nextFlush := True \<rparr>) \<rparr>"
  have "wf schema ?w1" by (rule wf_append_queue [OF assms])
  moreover have "graphs ?w1 g = Some G" using assms(2) by simp
  ultimately have "wf schema ?w2"
    by (rule wf_nextFlush)
  moreover have "wf schema (enqueue g G a xs r p w) = wf schema ?w2"
    by (rule wf_cong) (simp_all add: enqueue_def)
  ultimately show ?thesis by simp
qed

lemma Graph_push_in_loop_enqueue:
  assumes "Graph_get g i w = Inr (c, w1)" "Relationships_get schema c n w1 = Inr (r, w2)"
    and "relationships w2 r = Some rel" "graphs w2 g = Some G"
    and "arrays w2 (queued_at (kind rel) (queued G)) = Some xs"
  shows "Graph_push_in_loop schema g i n p w = Inr (enqueue g G (queued_at (kind rel) (queued G)) xs r p w2)"
proof (cases "nextFlush G")
  case True
  then have "G\<lparr> nextFlush := True \<rparr> = G" by simp
  with assms(4) have "(graphs w2)(g \<mapsto> G\<lparr> nextFlush := True \<rparr>) = graphs w2"
    by (simp add: map_upd_triv)
  with assms True show ?thesis
    by (simp add: Graph_push_in_loop_def enqueue_def Let_def)
next
  case False
  with assms show ?thesis
    by (simp add: Graph_push_in_loop_def enqueue_def Let_def schedule_def)
qed

lemma extends_enqueue: "graphs w g = Some G \<Longrightarrow> extends w (enqueue g G a xs r p w)"
  unfolding extends_def enqueue_def by auto

lemma lookup_frame_graph:
  "lookup_frame w w' \<Longrightarrow> graphs w g = Some G \<Longrightarrow>
   \<exists>G'. graphs w' g = Some G' \<and> queued G' = queued G \<and> nextFlush G' = nextFlush G"
  by (simp add: lookup_frame_def)

lemma lookup_frame_arrays: "lookup_frame w w' \<Longrightarrow> arrays w' = arrays w"
  by (simp add: lookup_frame_def)

lemma Graph_push_in_loop_effect:
  assumes wf: "wf schema w" and G: "graphs w g = Some G"
  obtains c r w2 G2 C2 rel ps where
    "Graph_push_in_loop schema g i n p w =
       Inr (enqueue g G2 (queued_at (schema i n) (queued G)) (flat ps) r p w2)"
    "wf schema w2" "extends w w2" "lookup_frame w w2"
    "graphs w2 g = Some G2" "identifiers G2 i = Some c" "queued G2 = queued G"
    "nextFlush G2 = nextFlush G"
    "containers w2 c = Some C2" "initializedRelationships C2 n = Some r"
    "relationships w2 r = Some rel" "kind rel = schema i n"
    "arrays w (queued_at (schema i n) (queued G)) = Some (flat ps)"
    "\<forall>(r, p)\<in>set ps. \<exists>rel. relationships w r = Some rel \<and> kind rel = schema i n"
proof -
  from Graph_get_succeeds [OF G, of i] obtain c w1 G1 where
    get: "Graph_get g i w = Inr (c, w1)" and G1: "graphs w1 g = Some G1"
    and c: "identifiers G1 i = Some c"
    by blast
  have wf1: "wf schema w1" by (rule Graph_get_wf [OF wf get])
  from wf have b: "bounded w" by (simp add: wf_def)
  have e1: "extends w w1" by (rule Graph_get_extends [OF b get])
  have f1: "lookup_frame w w1" by (rule Graph_get_lookup_frame [OF get])
  from wf1 G1 c obtain C1 where C1: "containers w1 c = Some C1" "rs_graph C1 = g"
    "rs_identifier C1 = i"
    unfolding wf_def identifiers_ok_def by blast
  from Relationships_get_succeeds [OF C1(1), of schema n] obtain r w2 C2 where
    rget: "Relationships_get schema c n w1 = Inr (r, w2)" and C2: "containers w2 c = Some C2"
    and r: "initializedRelationships C2 n = Some r" and C2i: "rs_identifier C2 = i"
    and gr2: "graphs w2 = graphs w1"
    using C1 by metis
  have wf2: "wf schema w2" by (rule Relationships_get_wf [OF wf1 rget])
  from wf1 have b1: "bounded w1" by (simp add: wf_def)
  have e2: "extends w w2"
    by (rule extends_trans [OF e1 Relationships_get_extends [OF b1 rget]])
  have f2: "lookup_frame w w2"
    by (rule lookup_frame_trans [OF f1 Relationships_get_lookup_frame [OF b1 rget]])
  from wf2 C2 r C2i obtain rel where rel: "relationships w2 r = Some rel"
    "kind rel = schema i n"
    unfolding wf_def rels_ok_def by metis
  from G1 gr2 have G2: "graphs w2 g = Some G1" by simp
  from lookup_frame_graph [OF f2 G] G2
  have qG: "queued G1 = queued G" "nextFlush G1 = nextFlush G"
    by auto
  from wf have "queues_ok w" by (simp add: wf_def)
  with G obtain ps where ps: "arrays w (queued_at (schema i n) (queued G)) = Some (flat ps)"
    "\<forall>(r, p)\<in>set ps. \<exists>rel. relationships w r = Some rel \<and> kind rel = schema i n"
    unfolding queues_ok_def by blast
  from ps(1) have ps2: "arrays w2 (queued_at (schema i n) (queued G)) = Some (flat ps)"
    by (simp add: lookup_frame_arrays [OF f2])
  have "Graph_push_in_loop schema g i n p w =
       Inr (enqueue g G1 (queued_at (kind rel) (queued G1)) (flat ps) r p w2)"
    by (rule Graph_push_in_loop_enqueue [OF get rget rel(1) G2]) (simp add: rel(2) qG ps2)
  then have "Graph_push_in_loop schema g i n p w =
       Inr (enqueue g G1 (queued_at (schema i n) (queued G)) (flat ps) r p w2)"
    by (simp add: rel(2) qG)
  then show ?thesis
    using that wf2 e2 f2 G2 c qG C2 r rel ps by blast
qed

lemma Graph_push_in_loop_wf:
  assumes "wf schema w" "Graph_push_in_loop schema g i n p w = Inr w'"
  shows "wf schema w' \<and> extends w w'"
proof -
  from assms(2) obtain G where G: "graphs w g = Some G"
    by (auto simp: Graph_push_in_loop_def Graph_get_def split: option.splits)
  obtain c r w2 G2 C2 rel ps where *:
    "Graph_push_in_loop schema g i n p w =
       Inr (enqueue g G2 (queued_at (schema i n) (queued G)) (flat ps) r p w2)"
    "wf schema w2" "extends w w2" "lookup_frame w w2"
    "graphs w2 g = Some G2" "queued G2 = queued G"
    "relationships w2 r = Some rel" "kind rel = schema i n"
    "arrays w (queued_at (schema i n) (queued G)) = Some (flat ps)"
    by (rule Graph_push_in_loop_effect [OF assms(1) G, of i n p]) blast
  from *(1) assms(2)
  have w': "w' = enqueue g G2 (queued_at (schema i n) (queued G)) (flat ps) r p w2" by simp
  from *(9) have "arrays w2 (queued_at (schema i n) (queued G)) = Some (flat ps)"
    by (simp add: lookup_frame_arrays [OF *(4)])
  with * have "wf schema w'"
    unfolding w' by (intro wf_enqueue [where rel = rel]) simp_all
  moreover have "extends w w'"
    unfolding w' by (rule extends_trans [OF *(3) extends_enqueue [OF *(5)]])
  ultimately show ?thesis ..
qed

lemma Graph_push_in_loop_succeeds:
  assumes "wf schema w" "graphs w g = Some G"
  shows "\<exists>w'. Graph_push_in_loop schema g i n p w = Inr w'"
  by (rule Graph_push_in_loop_effect [OF assms, of i n p]) blast

lemma push_frame_refl: "push_frame w w"
  by (simp add: push_frame_def)

lemma push_frame_detached:
  assumes "push_frame w w'" "detached w a"
  shows "detached w' a"
  unfolding detached_def
proof (intro allI impI)
  fix g G' k assume G': "graphs w' g = Some G'"
  with assms(1) obtain G where "graphs w g = Some G" "queued G' = queued G"
    unfolding push_frame_def by (metis option.exhaust option.distinct(1) option.inject)
  with assms(2) show "queued_at k (queued G') \<noteq> a"
    unfolding detached_def by simp
qed

lemma push_frame_trans:
  assumes a: "push_frame w w1" and b: "push_frame w1 w2"
  shows "push_frame w w2"
  unfolding push_frame_def
proof (intro conjI allI impI)
  from a b show "applied w2 = applied w" "Graphs w2 = Graphs w"
    by (simp_all add: push_frame_def)
next
  fix g assume "graphs w g = None"
  with a b show "graphs w2 g = None" by (simp add: push_frame_def)
next
  fix g G assume "graphs w g = Some G"
  with a obtain G1 where "graphs w1 g = Some G1" "queued G1 = queued G"
    unfolding push_frame_def by blast
  moreover with b obtain G2 where "graphs w2 g = Some G2" "queued G2 = queued G1"
    unfolding push_frame_def by blast
  ultimately show "\<exists>G'. graphs w2 g = Some G' \<and> queued G' = queued G" by simp
next
  fix r rel assume "relationships w r = Some rel"
  with a b show "relationships w2 r = Some rel" by (simp add: push_frame_def)
next
  fix r rel assume n: "relationships w r = None" and s: "relationships w2 r = Some rel"
  show "canonicalUpdates rel = []"
  proof (cases "relationships w1 r")
    case None
    with b s show ?thesis unfolding push_frame_def by blast
  next
    case (Some rel1)
    with a n have "canonicalUpdates rel1 = []" unfolding push_frame_def by blast
    moreover from b Some have "relationships w2 r = Some rel1" unfolding push_frame_def by blast
    ultimately show ?thesis using s by simp
  qed
next
  fix a0 assume d: "detached w a0"
  from push_frame_detached [OF a d] have "detached w1 a0" .
  with a b d show "arrays w2 a0 = arrays w a0" by (simp add: push_frame_def)
qed

lemma lookup_frame_push_frame:
  assumes "lookup_frame w w'"
  shows "push_frame w w'"
  unfolding push_frame_def
proof (intro conjI allI impI)
  fix g G assume "graphs w g = Some G"
  from lookup_frame_graph [OF assms this]
  show "\<exists>G'. graphs w' g = Some G' \<and> queued G' = queued G" by blast
qed (use assms in \<open>simp_all add: lookup_frame_def\<close>)

lemma enqueue_push_frame:
  assumes "graphs w g = Some G" "a = queued_at k (queued G)"
  shows "push_frame w (enqueue g G a xs r p w)"
  unfolding push_frame_def
proof (intro conjI allI impI)
  fix a0 assume "detached w a0"
  with assms have "a0 \<noteq> a" unfolding detached_def by blast
  then show "arrays (enqueue g G a xs r p w) a0 = arrays w a0"
    by (simp add: enqueue_def)
qed (use assms in \<open>auto simp: enqueue_def\<close>)

lemma Graph_push_in_loop_push_frame:
  assumes "wf schema w" "Graph_push_in_loop schema g i n p w = Inr w'"
  shows "push_frame w w'"
proof -
  from assms(2) obtain G where G: "graphs w g = Some G"
    by (auto simp: Graph_push_in_loop_def Graph_get_def split: option.splits)
  obtain c r w2 G2 C2 rel ps where *:
    "Graph_push_in_loop schema g i n p w =
       Inr (enqueue g G2 (queued_at (schema i n) (queued G)) (flat ps) r p w2)"
    "lookup_frame w w2" "graphs w2 g = Some G2" "queued G2 = queued G"
    by (rule Graph_push_in_loop_effect [OF assms(1) G, of i n p]) blast
  from *(1) assms(2)
  have w': "w' = enqueue g G2 (queued_at (schema i n) (queued G)) (flat ps) r p w2" by simp
  have "push_frame w2 w'"
    unfolding w' by (rule enqueue_push_frame [OF *(3)]) (simp add: *(4))
  with lookup_frame_push_frame [OF *(2)] show ?thesis
    by (rule push_frame_trans)
qed

lemma extends_graph:
  "extends w w' \<Longrightarrow> graphs w g = Some G \<Longrightarrow> \<exists>G'. graphs w' g = Some G'"
  unfolding extends_def by blast

lemma extends_relationship:
  "extends w w' \<Longrightarrow> relationships w r = Some rel \<Longrightarrow> \<exists>rel'. relationships w' r = Some rel'"
  unfolding extends_def by blast

lemma push_all_effect:
  assumes "wf schema w" "graphs w g = Some G"
  shows "\<exists>w'. push_all schema g pushes w = Inr w' \<and> wf schema w' \<and> extends w w' \<and>
           push_frame w w'"
  using assms
proof (induction pushes arbitrary: w G)
  case Nil
  then show ?case by (simp add: extends_refl push_frame_refl)
next
  case (Cons x pushes)
  obtain i n p where x: "x = (i, n, p)" by (cases x)
  from Graph_push_in_loop_succeeds [OF Cons.prems] obtain w1 where
    w1: "Graph_push_in_loop schema g i n p w = Inr w1" by blast
  from Graph_push_in_loop_wf [OF Cons.prems(1) w1] have wf1: "wf schema w1" and e1: "extends w w1"
    by simp_all
  from extends_graph [OF e1 Cons.prems(2)] obtain G1 where "graphs w1 g = Some G1" ..
  from Cons.IH [OF wf1 this] obtain w' where
    w': "push_all schema g pushes w1 = Inr w'" "wf schema w'" "extends w1 w'"
    "push_frame w1 w'" by blast
  from w1 w' x have "push_all schema g (x # pushes) w = Inr w'" by simp
  moreover have "extends w w'" by (rule extends_trans [OF e1 w'(3)])
  moreover have "push_frame w w'"
    by (rule push_frame_trans [OF Graph_push_in_loop_push_frame [OF Cons.prems(1) w1] w'(4)])
  ultimately show ?case using w'(2) by blast
qed

lemma update_frame_detached:
  assumes "update_frame ps w w'" "detached w a"
  shows "detached w' a"
  unfolding detached_def
proof (intro allI impI)
  fix g G' k assume G': "graphs w' g = Some G'"
  with assms(1) obtain G where "graphs w g = Some G" "queued G' = queued G"
    unfolding update_frame_def by (metis option.exhaust option.distinct(1) option.inject)
  with assms(2) show "queued_at k (queued G') \<noteq> a"
    unfolding detached_def by simp
qed

lemma update_frame_trans:
  assumes a: "update_frame ps w w1" and b: "update_frame qs w1 w2"
  shows "update_frame (ps @ qs) w w2"
  unfolding update_frame_def
proof (intro conjI allI impI)
  from a b show "applied w2 = applied w @ ps @ qs" "Graphs w2 = Graphs w"
    by (simp_all add: update_frame_def)
next
  fix g assume "graphs w g = None"
  with a b show "graphs w2 g = None" by (simp add: update_frame_def)
next
  fix g G assume "graphs w g = Some G"
  with a obtain G1 where "graphs w1 g = Some G1" "queued G1 = queued G"
    unfolding update_frame_def by blast
  moreover with b obtain G2 where "graphs w2 g = Some G2" "queued G2 = queued G1"
    unfolding update_frame_def by blast
  ultimately show "\<exists>G'. graphs w2 g = Some G' \<and> queued G' = queued G" by simp
next
  fix r rel assume "relationships w r = Some rel"
  with a obtain rel1 where r1: "relationships w1 r = Some rel1"
    "canonicalUpdates rel1 = canonicalUpdates rel @ map snd (filter (\<lambda>x. fst x = r) ps)"
    unfolding update_frame_def by blast
  with b obtain rel2 where "relationships w2 r = Some rel2"
    "canonicalUpdates rel2 = canonicalUpdates rel1 @ map snd (filter (\<lambda>x. fst x = r) qs)"
    unfolding update_frame_def by blast
  with r1 show "\<exists>rel'. relationships w2 r = Some rel' \<and>
      canonicalUpdates rel' = canonicalUpdates rel @ map snd (filter (\<lambda>x. fst x = r) (ps @ qs))"
    by simp
next
  fix a0 assume d: "detached w a0"
  from update_frame_detached [OF a d] have "detached w1 a0" .
  with a b d show "arrays w2 a0 = arrays w a0" by (simp add: update_frame_def)
qed

lemma push_frame_update_frame: "push_frame w w' \<Longrightarrow> update_frame [] w w'"
  unfolding push_frame_def update_frame_def by simp

lemma log_update_frame:
  "relationships w r = Some rel \<Longrightarrow> update_frame [(r, p)] w (log_update r rel p w)"
  unfolding update_frame_def log_update_def by simp

lemma log_update_extends:
  "relationships w r = Some rel \<Longrightarrow> extends w (log_update r rel p w)"
  unfolding extends_def log_update_def by auto

lemma log_update_wf:
  assumes wf: "wf schema w" and rel: "relationships w r = Some rel"
  shows "wf schema (log_update r rel p w)" (is "wf schema ?w'")
proof -
  have rels: "relationships ?w' = (relationships w)(r \<mapsto>
      rel\<lparr> canonicalUpdates := canonicalUpdates rel @ [p] \<rparr>)"
    by (simp add: log_update_def)
  have same: "Graphs ?w' = Graphs w" "graphs ?w' = graphs w" "containers ?w' = containers w"
    "arrays ?w' = arrays w" "dicts ?w' = dicts w" "nextRef ?w' = nextRef w"
    by (simp_all add: log_update_def)
  have keep: "\<exists>rel''. relationships ?w' r' = Some rel'' \<and> kind rel'' = kind rel' \<and>
      rel_identifier rel'' = rel_identifier rel' \<and> rel_key rel'' = rel_key rel'"
    if "relationships w r' = Some rel'" for r' rel'
    using that rel unfolding rels by auto
  from wf have "bounded ?w'"
    unfolding wf_def bounded_def same rels using rel by auto
  moreover from wf have "graphs_ok ?w'"
    unfolding wf_def graphs_ok_def same by simp
  moreover have "queues_ok ?w'"
    unfolding queues_ok_def same
  proof (intro allI impI)
    fix g G k assume "graphs w g = Some G"
    with wf obtain ps where ps: "arrays w (queued_at k (queued G)) = Some (flat ps)"
      "\<forall>(r, p)\<in>set ps. \<exists>rel. relationships w r = Some rel \<and> kind rel = k"
      unfolding wf_def queues_ok_def by blast
    have "\<forall>(r, p)\<in>set ps. \<exists>rel. relationships ?w' r = Some rel \<and> kind rel = k"
    proof (clarify)
      fix r' p' assume "(r', p') \<in> set ps"
      with ps(2) obtain rel' where "relationships w r' = Some rel'" "kind rel' = k" by blast
      with keep [OF this(1)] show "\<exists>rel. relationships ?w' r' = Some rel \<and> kind rel = k"
        by auto
    qed
    with ps(1) show "\<exists>ps. arrays w (queued_at k (queued G)) = Some (flat ps) \<and>
        (\<forall>(r, p)\<in>set ps. \<exists>rel. relationships ?w' r = Some rel \<and> kind rel = k)"
      by blast
  qed
  moreover from wf have "queues_distinct ?w'"
    unfolding wf_def queues_distinct_def same by simp
  moreover from wf have "identifiers_ok ?w'"
    unfolding wf_def identifiers_ok_def same by simp
  moreover have "rels_ok schema ?w'"
    unfolding rels_ok_def same
  proof (intro allI impI)
    fix c C n r' assume "containers w c = Some C" "initializedRelationships C n = Some r'"
    with wf obtain rel' where r': "relationships w r' = Some rel'"
      "kind rel' = schema (rs_identifier C) n" "rel_identifier rel' = rs_identifier C"
      "rel_key rel' = n"
      unfolding wf_def rels_ok_def by blast
    with keep [OF r'(1)]
    show "\<exists>rel. relationships ?w' r' = Some rel \<and> kind rel = schema (rs_identifier C) n \<and>
        rel_identifier rel = rs_identifier C \<and> rel_key rel = n"
      by auto
  qed
  moreover from wf have "rels_inj ?w'"
    unfolding wf_def rels_inj_def same by simp
  ultimately show ?thesis by (simp add: wf_def)
qed

lemma Relationship_push_effect:
  assumes "wf schema w" "graphs w g = Some G" "relationships w r = Some rel"
  shows "\<exists>w'. Relationship_push schema reentry g r p w = Inr w' \<and> wf schema w' \<and>
           extends w w' \<and> update_frame [(r, p)] w w'"
proof -
  let ?w0 = "log_update r rel p w"
  have wf0: "wf schema ?w0" by (rule log_update_wf [OF assms(1,3)])
  have G0: "graphs ?w0 g = Some G" using assms(2) by (simp add: log_update_def)
  from push_all_effect [OF wf0 G0, of "reentry r p"] obtain w' where
    w': "push_all schema g (reentry r p) ?w0 = Inr w'" "wf schema w'" "extends ?w0 w'"
    "push_frame ?w0 w'" by blast
  from w'(1) assms(3) have "Relationship_push schema reentry g r p w = Inr w'"
    by (simp add: Relationship_push_def log_update_def)
  moreover have "extends w w'"
    by (rule extends_trans [OF log_update_extends [OF assms(3)] w'(3)])
  moreover have "update_frame ([(r, p)] @ []) w w'"
    by (rule update_frame_trans [OF log_update_frame [OF assms(3)]
          push_frame_update_frame [OF w'(4)]])
  ultimately show ?thesis using w'(2) by simp
qed

lemma apply_updates_effect:
  assumes "wf schema w" "graphs w g = Some G"
    and "\<forall>(r, p)\<in>set ps. relationships w r \<noteq> None"
  shows "\<exists>w'. apply_updates schema reentry g ps w = Inr w' \<and> wf schema w' \<and>
           extends w w' \<and> update_frame ps w w'"
  using assms
proof (induction ps arbitrary: w G)
  case Nil
  then show ?case
    by (simp add: extends_refl push_frame_update_frame [OF push_frame_refl])
next
  case (Cons x ps)
  obtain r p where x: "x = (r, p)" by (cases x)
  with Cons.prems(3) obtain rel where rel: "relationships w r = Some rel" by auto
  from Relationship_push_effect [OF Cons.prems(1,2) rel, of reentry p] obtain w1 where
    w1: "Relationship_push schema reentry g r p w = Inr w1" "wf schema w1" "extends w w1"
    "update_frame [(r, p)] w w1" by blast
  from extends_graph [OF w1(3) Cons.prems(2)] obtain G1 where G1: "graphs w1 g = Some G1" ..
  have "\<forall>(r, p)\<in>set ps. relationships w1 r \<noteq> None"
  proof
    fix y assume in_ps: "y \<in> set ps"
    obtain r' p' where y: "y = (r', p')" by (cases y)
    from in_ps y Cons.prems(3) obtain rel' where "relationships w r' = Some rel'"
      by auto
    from extends_relationship [OF w1(3) this] y
    show "case y of (r, p) \<Rightarrow> relationships w1 r \<noteq> None" by auto
  qed
  from Cons.IH [OF w1(2) G1 this] obtain w' where
    w': "apply_updates schema reentry g ps w1 = Inr w'" "wf schema w'" "extends w1 w'"
    "update_frame ps w1 w'" by blast
  from w1(1) w'(1) x have "apply_updates schema reentry g (x # ps) w = Inr w'" by simp
  moreover have "extends w w'" by (rule extends_trans [OF w1(3) w'(3)])
  moreover have "update_frame ([(r, p)] @ ps) w w'"
    by (rule update_frame_trans [OF w1(4) w'(4)])
  ultimately show ?case using w'(2) x by auto
qed

lemma length_flat: "length (flat ps) = 2 * length ps"
  by (induction ps) auto

lemma flat_nth:
  "j < length ps \<Longrightarrow>
   flat ps ! (2 * j) = QRelationship (fst (ps ! j)) \<and>
   flat ps ! (2 * j + 1) = QPayload (snd (ps ! j))"
proof (induction ps arbitrary: j)
  case Nil
  then show ?case by simp
next
  case (Cons x ps)
  obtain r p where x: "x = (r, p)" by (cases x)
  show ?case
  proof (cases j)
    case 0
    with x show ?thesis by simp
  next
    case (Suc j')
    with Cons.prems have "j' < length ps" by simp
    from Cons.IH [OF this] Suc x show ?thesis by simp
  qed
qed

lemma update_frame_arrays:
  "update_frame ps w w' \<Longrightarrow> detached w a \<Longrightarrow> arrays w' a = arrays w a"
  by (simp add: update_frame_def)

lemma drain_eq:
  assumes "wf schema w" "graphs w g = Some G" "arrays w a = Some (flat ps)" "detached w a"
    and "\<forall>(r, p)\<in>set ps. relationships w r \<noteq> None" "j \<le> length ps"
  shows "drain schema reentry g a (2 * j) w =
           Some (apply_updates schema reentry g (drop j ps) w)"
  using assms
proof (induction "length ps - j" arbitrary: j w G)
  case 0
  then have "j = length ps" by simp
  with "0.prems"(3) show ?case
    by (subst drain.simps) (simp add: length_flat)
next
  case (Suc m)
  then have j: "j < length ps" by simp
  obtain r p where rp: "ps ! j = (r, p)" by (cases "ps ! j")
  with j have "(r, p) \<in> set ps" by (metis nth_mem)
  with Suc.prems(5) obtain rel where rel: "relationships w r = Some rel" by auto
  from Relationship_push_effect [OF Suc.prems(1,2) rel, of reentry p] obtain w1 where
    w1: "Relationship_push schema reentry g r p w = Inr w1" "wf schema w1" "extends w w1"
    "update_frame [(r, p)] w w1" by blast
  from extends_graph [OF w1(3) Suc.prems(2)] obtain G1 where G1: "graphs w1 g = Some G1" ..
  have a1: "arrays w1 a = Some (flat ps)"
    using update_frame_arrays [OF w1(4) Suc.prems(4)] Suc.prems(3) by simp
  have d1: "detached w1 a" by (rule update_frame_detached [OF w1(4) Suc.prems(4)])
  have r1: "\<forall>(r, p)\<in>set ps. relationships w1 r \<noteq> None"
  proof
    fix y assume in_ps: "y \<in> set ps"
    obtain r' p' where y: "y = (r', p')" by (cases y)
    from in_ps y Suc.prems(5) obtain rel' where "relationships w r' = Some rel'"
      by auto
    from extends_relationship [OF w1(3) this] y
    show "case y of (r, p) \<Rightarrow> relationships w1 r \<noteq> None" by auto
  qed
  from Suc.hyps(2) have m: "m = length ps - Suc j" by simp
  from j have j1: "Suc j \<le> length ps" by simp
  have IH: "drain schema reentry g a (2 * Suc j) w1 =
      Some (apply_updates schema reentry g (drop (Suc j) ps) w1)"
    by (rule Suc.hyps(1) [OF m w1(2) G1 a1 d1 r1 j1])
  from j have len: "2 * j < length (flat ps)" "2 * j + 1 < length (flat ps)"
    by (simp_all add: length_flat)
  from flat_nth [OF j] rp have nth: "flat ps ! (2 * j) = QRelationship r"
    "flat ps ! (2 * j + 1) = QPayload p" by simp_all
  have "drain schema reentry g a (2 * j) w = drain schema reentry g a (2 * j + 2) w1"
    using len nth by (subst drain.simps) (simp add: Suc.prems(3) w1(1))
  also have "\<dots> = Some (apply_updates schema reentry g (drop (Suc j) ps) w1)"
    using IH by simp
  also have "drop j ps = (r, p) # drop (Suc j) ps"
    using j rp by (metis Cons_nth_drop_Suc)
  then have "apply_updates schema reentry g (drop (Suc j) ps) w1 =
      apply_updates schema reentry g (drop j ps) w"
    using w1(1) by simp
  finally show ?case .
qed

lemma flush_unfold:
  "graphs w g = Some G \<Longrightarrow>
   flush schema reentry g w =
     (case drain schema reentry g (hasMany (queued G)) 0 (flush_begin g G w) of
        None \<Rightarrow> None
      | Some (Inl e) \<Rightarrow> Some (Inl e)
      | Some (Inr w2) \<Rightarrow> drain schema reentry g (belongsTo (queued G)) 0 w2)"
  by (simp add: flush_def flush_begin_def Let_def)

lemma flush_begin_fields:
  "Graphs (flush_begin g G w) = Graphs w"
  "containers (flush_begin g G w) = containers w"
  "relationships (flush_begin g G w) = relationships w"
  "dicts (flush_begin g G w) = dicts w"
  "applied (flush_begin g G w) = applied w"
  "flushRelationships (flush_begin g G w) = flushRelationships w"
  "nextRef (flush_begin g G w) = nextRef w + 2"
  "graphs (flush_begin g G w) = (graphs w)(g \<mapsto>
      G\<lparr> nextFlush := False, queued := \<lparr> belongsTo = nextRef w, hasMany = nextRef w + 1 \<rparr> \<rparr>)"
  "arrays (flush_begin g G w) = (arrays w)(nextRef w \<mapsto> [], nextRef w + 1 \<mapsto> [])"
  by (simp_all add: flush_begin_def)

lemma flush_begin_arrays:
  assumes "bounded w" "queues_ok w" "graphs w g1 = Some G1"
  shows "arrays (flush_begin g G w) (queued_at k (queued G1)) = arrays w (queued_at k (queued G1))"
  using queue_array_bounded [OF assms, of k] by (simp add: flush_begin_fields)

lemma flush_begin_extends:
  assumes "graphs w g = Some G"
  shows "extends w (flush_begin g G w)"
  unfolding extends_def flush_begin_fields using assms by auto

lemma flush_begin_detached:
  assumes "wf schema w" "graphs w g = Some G"
  shows "detached (flush_begin g G w) (queued_at k (queued G))"
  unfolding detached_def flush_begin_fields
proof (intro allI impI)
  fix g1 G1 k1
  assume G1: "((graphs w)(g \<mapsto> G\<lparr> nextFlush := False,
      queued := \<lparr> belongsTo = nextRef w, hasMany = nextRef w + 1 \<rparr> \<rparr>)) g1 = Some G1"
  from assms have b: "bounded w" and q: "queues_ok w" and d: "queues_distinct w"
    by (simp_all add: wf_def)
  from queue_array_bounded [OF b q assms(2), of k]
  have old: "queued_at k (queued G) < nextRef w" .
  show "queued_at k1 (queued G1) \<noteq> queued_at k (queued G)"
  proof (cases "g1 = g")
    case True
    with G1 have "queued_at k1 (queued G1) =
        nextRef w + (case k1 of BelongsTo \<Rightarrow> 0 | HasMany \<Rightarrow> 1)"
      by (cases k1) auto
    with old show ?thesis by simp
  next
    case False
    with G1 have "graphs w g1 = Some G1" by simp
    with d assms(2) False show ?thesis
      unfolding queues_distinct_def by blast
  qed
qed

lemma flush_begin_wf:
  assumes wf: "wf schema w" and G: "graphs w g = Some G"
  shows "wf schema (flush_begin g G w)" (is "wf schema ?w'")
proof -
  from wf have b: "bounded w" and q: "queues_ok w" and d: "queues_distinct w"
    by (simp_all add: wf_def)
  let ?G' = "G\<lparr> nextFlush := False,
      queued := \<lparr> belongsTo = nextRef w, hasMany = nextRef w + 1 \<rparr> \<rparr>"
  have gr: "graphs ?w' = (graphs w)(g \<mapsto> ?G')" by (simp add: flush_begin_fields)
  from b G have gn: "g < nextRef w"
    unfolding bounded_def by (metis not_le option.distinct(1))
  have old: "graphs w g1 = Some G1 \<and> queued_at k (queued G1) < nextRef w"
    if "graphs ?w' g1 = Some G1" "g1 \<noteq> g" for g1 G1 k
  proof -
    from that have "graphs w g1 = Some G1" by (simp add: gr)
    with queue_array_bounded [OF b q] show ?thesis by blast
  qed
  have new: "queued_at k (queued G1) = nextRef w + (case k of BelongsTo \<Rightarrow> 0 | HasMany \<Rightarrow> 1)"
    if "graphs ?w' g = Some G1" for G1 k
    using that by (cases k) (auto simp: gr)
  have "bounded ?w'"
    using b gn unfolding bounded_def flush_begin_fields by auto
  moreover have "graphs_ok ?w'"
    using wf G unfolding wf_def graphs_ok_def flush_begin_fields by fastforce
  moreover have "queues_ok ?w'"
    unfolding queues_ok_def
  proof (intro allI impI)
    fix g1 G1 k
    assume G1: "graphs ?w' g1 = Some G1"
    show "\<exists>ps. arrays ?w' (queued_at k (queued G1)) = Some (flat ps) \<and>
            (\<forall>(r, p)\<in>set ps. \<exists>rel. relationships ?w' r = Some rel \<and> kind rel = k)"
    proof (cases "g1 = g")
      case True
      with new [of G1 k] G1
      have "arrays ?w' (queued_at k (queued G1)) = Some (flat [])"
        by (cases k) (simp_all add: flush_begin_fields)
      then show ?thesis by (intro exI [of _ "[]"]) simp
    next
      case False
      from old [OF G1 False, of k] have G1o: "graphs w g1 = Some G1" by simp
      with q obtain ps where ps: "arrays w (queued_at k (queued G1)) = Some (flat ps)"
        "\<forall>(r, p)\<in>set ps. \<exists>rel. relationships w r = Some rel \<and> kind rel = k"
        unfolding queues_ok_def by blast
      with flush_begin_arrays [OF b q G1o, of g G k] show ?thesis
        by (intro exI [of _ ps]) (simp add: flush_begin_fields)
    qed
  qed
  moreover have "queues_distinct ?w'"
    unfolding queues_distinct_def
  proof (intro allI impI)
    fix g1 G1 g2 G2 k1 k2
    assume a: "graphs ?w' g1 = Some G1" "graphs ?w' g2 = Some G2"
      "queued_at k1 (queued G1) = queued_at k2 (queued G2)"
    consider "g1 = g" "g2 = g" | "g1 = g" "g2 \<noteq> g" | "g1 \<noteq> g" "g2 = g" | "g1 \<noteq> g" "g2 \<noteq> g"
      by blast
    then show "g1 = g2 \<and> k1 = k2"
    proof cases
      case 1
      with a new [of G1 k1] new [of G2 k2] show ?thesis
        by (cases k1; cases k2) auto
    next
      case 2
      with a new [of G1 k1] old [of g2 G2 k2] show ?thesis
        by (cases k1) auto
    next
      case 3
      with a new [of G2 k2] old [of g1 G1 k1] show ?thesis
        by (cases k2) auto
    next
      case 4
      with a old [of g1 G1 k1] old [of g2 G2 k2] d show ?thesis
        unfolding queues_distinct_def by blast
    qed
  qed
  moreover have "identifiers_ok ?w'"
    using wf G unfolding wf_def identifiers_ok_def flush_begin_fields
    by (fastforce split: if_splits)
  moreover have "rels_ok schema ?w'"
    using wf unfolding wf_def rels_ok_def flush_begin_fields by simp
  moreover have "rels_inj ?w'"
    using wf unfolding wf_def rels_inj_def flush_begin_fields by simp
  ultimately show ?thesis by (simp add: wf_def)
qed

lemma relationships_exist_extends:
  assumes "extends w w'" "\<forall>(r, p)\<in>set ps. \<exists>rel. relationships w r = Some rel \<and> P rel"
  shows "\<forall>(r, p)\<in>set ps. relationships w' r \<noteq> None"
proof
  fix y assume in_ps: "y \<in> set ps"
  obtain r' p' where y: "y = (r', p')" by (cases y)
  from in_ps y assms(2) obtain rel' where "relationships w r' = Some rel'"
    by auto
  from extends_relationship [OF assms(1) this] y
  show "case y of (r, p) \<Rightarrow> relationships w' r \<noteq> None" by auto
qed

lemma flush_effect:
  assumes wf: "wf schema w" and G: "graphs w g = Some G"
  obtains hm bt w2 w' where
    "arrays w (hasMany (queued G)) = Some (flat hm)"
    "arrays w (belongsTo (queued G)) = Some (flat bt)"
    "\<forall>(r, p)\<in>set hm. \<exists>rel. relationships w r = Some rel \<and> kind rel = HasMany"
    "\<forall>(r, p)\<in>set bt. \<exists>rel. relationships w r = Some rel \<and> kind rel = BelongsTo"
    "apply_updates schema reentry g hm (flush_begin g G w) = Inr w2"
    "apply_updates schema reentry g bt w2 = Inr w'"
    "flush schema reentry g w = Some (Inr w')"
    "wf schema w2" "wf schema w'" "extends w w'"
    "update_frame hm (flush_begin g G w) w2" "update_frame bt w2 w'"
proof -
  let ?w1 = "flush_begin g G w"
  from wf have b: "bounded w" and q: "queues_ok w" by (simp_all add: wf_def)
  from q G obtain hm where hm: "arrays w (queued_at HasMany (queued G)) = Some (flat hm)"
    "\<forall>(r, p)\<in>set hm. \<exists>rel. relationships w r = Some rel \<and> kind rel = HasMany"
    unfolding queues_ok_def by blast
  from q G obtain bt where bt: "arrays w (queued_at BelongsTo (queued G)) = Some (flat bt)"
    "\<forall>(r, p)\<in>set bt. \<exists>rel. relationships w r = Some rel \<and> kind rel = BelongsTo"
    unfolding queues_ok_def by blast
  have wf1: "wf schema ?w1" by (rule flush_begin_wf [OF wf G])
  have e1: "extends w ?w1" by (rule flush_begin_extends [OF G])
  from extends_graph [OF e1 G] obtain G1 where G1: "graphs ?w1 g = Some G1" ..
  have hm1: "arrays ?w1 (queued_at HasMany (queued G)) = Some (flat hm)"
    using flush_begin_arrays [OF b q G, of g G HasMany] hm(1) by simp
  have bt1: "arrays ?w1 (queued_at BelongsTo (queued G)) = Some (flat bt)"
    using flush_begin_arrays [OF b q G, of g G BelongsTo] bt(1) by simp
  have dh: "detached ?w1 (queued_at HasMany (queued G))"
    and db: "detached ?w1 (queued_at BelongsTo (queued G))"
    by (rule flush_begin_detached [OF wf G])+
  have rh: "\<forall>(r, p)\<in>set hm. relationships ?w1 r \<noteq> None"
    by (rule relationships_exist_extends [OF e1 hm(2)])
  from apply_updates_effect [OF wf1 G1 rh, of reentry] obtain w2 where
    w2: "apply_updates schema reentry g hm ?w1 = Inr w2" "wf schema w2" "extends ?w1 w2"
    "update_frame hm ?w1 w2" by blast
  have "drain schema reentry g (queued_at HasMany (queued G)) (2 * 0) ?w1 =
      Some (apply_updates schema reentry g (drop 0 hm) ?w1)"
    by (rule drain_eq [OF wf1 G1 hm1 dh rh]) simp
  with w2(1) have drain1: "drain schema reentry g (hasMany (queued G)) 0 ?w1 = Some (Inr w2)"
    by simp
  have e2: "extends w w2" by (rule extends_trans [OF e1 w2(3)])
  from extends_graph [OF e2 G] obtain G2 where G2: "graphs w2 g = Some G2" ..
  have bt2: "arrays w2 (queued_at BelongsTo (queued G)) = Some (flat bt)"
    using update_frame_arrays [OF w2(4) db] bt1 by simp
  have db2: "detached w2 (queued_at BelongsTo (queued G))"
    by (rule update_frame_detached [OF w2(4) db])
  have rb: "\<forall>(r, p)\<in>set bt. relationships w2 r \<noteq> None"
    by (rule relationships_exist_extends [OF e2 bt(2)])
  from apply_updates_effect [OF w2(2) G2 rb, of reentry] obtain w' where
    w': "apply_updates schema reentry g bt w2 = Inr w'" "wf schema w'" "extends w2 w'"
    "update_frame bt w2 w'" by blast
  have "drain schema reentry g (queued_at BelongsTo (queued G)) (2 * 0) w2 =
      Some (apply_updates schema reentry g (drop 0 bt) w2)"
    by (rule drain_eq [OF w2(2) G2 bt2 db2 rb]) simp
  with w'(1) have drain2: "drain schema reentry g (belongsTo (queued G)) 0 w2 = Some (Inr w')"
    by simp
  have fl: "flush schema reentry g w = Some (Inr w')"
    by (simp add: flush_unfold [OF G] drain1 drain2)
  have e': "extends w w'" by (rule extends_trans [OF e2 w'(3)])
  from hm bt w2 w' fl e' show ?thesis
    by (intro that [of hm bt w2 w']) simp_all
qed

lemma flush_wf:
  assumes "wf schema w" "flush schema reentry g w = Some (Inr w')"
  shows "wf schema w' \<and> extends w w'"
proof -
  from assms(2) obtain G where G: "graphs w g = Some G"
    by (auto simp: flush_def split: option.splits)
  show ?thesis
    by (rule flush_effect [OF assms(1) G, of reentry]) (use assms(2) in auto)
qed

lemma run_scheduled_wf:
  assumes "wf schema w" "run_scheduled schema reentry w = Some (Inr w')"
  shows "wf schema w' \<and> extends w w'"
proof (cases "flushRelationships w")
  case Nil
  with assms show ?thesis by (simp add: run_scheduled_def extends_refl)
next
  case (Cons g rest)
  let ?w0 = "w\<lparr> flushRelationships := rest \<rparr>"
  from assms(2) Cons have "flush schema reentry g ?w0 = Some (Inr w')"
    by (simp add: run_scheduled_def)
  from flush_wf [OF _ this] assms(1) have "wf schema w'" "extends ?w0 w'" by simp_all
  moreover have "extends w ?w0" by (simp add: extends_def)
  ultimately show ?thesis using extends_trans by blast
qed

lemma backburner_end_wf_aux:
  assumes "backburner_end schema reentry w = Some y"
  shows "\<forall>w'. wf schema w \<longrightarrow> y = Inr w' \<longrightarrow> wf schema w' \<and> extends w w'"
proof (rule backburner_end.raw_induct [where P = "\<lambda>schema reentry w y.
    \<forall>w'. wf schema w \<longrightarrow> y = Inr w' \<longrightarrow> wf schema w' \<and> extends w w'", OF _ assms])
  fix end' schema reentry and w :: "('a, 'b) world" and y
  assume IH: "\<And>schema reentry (w :: ('a, 'b) world) y. end' schema reentry w = Some y \<Longrightarrow>
      \<forall>w'. wf schema w \<longrightarrow> y = Inr w' \<longrightarrow> wf schema w' \<and> extends w w'"
    and eq: "(case flushRelationships w of
         [] \<Rightarrow> Some (Inr (w\<lparr> currentInstance := False \<rparr>))
       | g # rest \<Rightarrow>
           (case flush schema reentry g (w\<lparr> flushRelationships := rest \<rparr>) of
              None \<Rightarrow> None
            | Some (Inl e) \<Rightarrow> Some (Inl e)
            | Some (Inr w1) \<Rightarrow> end' schema reentry w1)) = Some y"
  show "\<forall>w'. wf schema w \<longrightarrow> y = Inr w' \<longrightarrow> wf schema w' \<and> extends w w'"
  proof (intro allI impI)
    fix w' assume wf: "wf schema w" and y: "y = Inr w'"
    show "wf schema w' \<and> extends w w'"
    proof (cases "flushRelationships w")
      case Nil
      with eq y have w': "w' = w\<lparr> currentInstance := False \<rparr>" by simp
      have "wf schema w' = wf schema w" unfolding w' by (rule wf_cong) simp_all
      moreover have "extends w w'" unfolding w' by (simp add: extends_def)
      ultimately show ?thesis using wf by simp
    next
      case (Cons g rest)
      let ?w0 = "w\<lparr> flushRelationships := rest \<rparr>"
      from eq Cons y obtain w1 where
        fl: "flush schema reentry g ?w0 = Some (Inr w1)"
        and rest: "end' schema reentry w1 = Some (Inr w')"
        by (auto split: option.splits sum.splits)
      have "wf schema ?w0 = wf schema w" by (rule wf_cong) simp_all
      with wf have wf0: "wf schema ?w0" by simp
      from flush_wf [OF wf0 fl] have wf1: "wf schema w1" and e1: "extends ?w0 w1" by simp_all
      from IH [OF rest] wf1 have "wf schema w'" "extends w1 w'" by simp_all
      moreover have "extends w ?w0" by (simp add: extends_def)
      ultimately show ?thesis using e1 extends_trans by blast
    qed
  qed
qed

lemma backburner_end_wf:
  assumes "wf schema w" "backburner_end schema reentry w = Some (Inr w')"
  shows "wf schema w' \<and> extends w w'"
  using backburner_end_wf_aux [OF assms(2)] assms(1) by simp

lemma Graph_get_currentInstance:
  "Graph_get g i w = Inr (c, w') \<Longrightarrow> currentInstance w' = currentInstance w"
  by (auto simp: Graph_get_def Let_def split: option.splits)

lemma Relationships_get_currentInstance:
  "Relationships_get schema c n w = Inr (r, w') \<Longrightarrow> currentInstance w' = currentInstance w"
  by (auto simp: Relationships_get_def Let_def split: option.splits)

lemma push_lookups:
  assumes wf: "wf schema w" and G: "graphs w g = Some G"
  obtains c w1 r w2 G2 C2 rel ps where
    "Graph_get g i w = Inr (c, w1)" "Relationships_get schema c n w1 = Inr (r, w2)"
    "wf schema w2" "extends w w2" "lookup_frame w w2"
    "graphs w2 g = Some G2" "identifiers G2 i = Some c" "queued G2 = queued G"
    "nextFlush G2 = nextFlush G"
    "containers w2 c = Some C2" "initializedRelationships C2 n = Some r"
    "relationships w2 r = Some rel" "kind rel = schema i n"
    "arrays w2 (queued_at (schema i n) (queued G)) = Some (flat ps)"
    "currentInstance w2 = currentInstance w"
proof -
  from Graph_get_succeeds [OF G, of i] obtain c w1 G1 where
    get: "Graph_get g i w = Inr (c, w1)" and G1: "graphs w1 g = Some G1"
    and c: "identifiers G1 i = Some c"
    by blast
  have wf1: "wf schema w1" by (rule Graph_get_wf [OF wf get])
  from wf have b: "bounded w" by (simp add: wf_def)
  have e1: "extends w w1" by (rule Graph_get_extends [OF b get])
  have f1: "lookup_frame w w1" by (rule Graph_get_lookup_frame [OF get])
  from wf1 G1 c obtain C1 where C1: "containers w1 c = Some C1" "rs_graph C1 = g"
    "rs_identifier C1 = i"
    unfolding wf_def identifiers_ok_def by blast
  from Relationships_get_succeeds [OF C1(1), of schema n] obtain r w2 C2 where
    rget: "Relationships_get schema c n w1 = Inr (r, w2)" and C2: "containers w2 c = Some C2"
    and r: "initializedRelationships C2 n = Some r" and C2i: "rs_identifier C2 = i"
    and gr2: "graphs w2 = graphs w1"
    using C1 by metis
  have wf2: "wf schema w2" by (rule Relationships_get_wf [OF wf1 rget])
  from wf1 have b1: "bounded w1" by (simp add: wf_def)
  have e2: "extends w w2"
    by (rule extends_trans [OF e1 Relationships_get_extends [OF b1 rget]])
  have f2: "lookup_frame w w2"
    by (rule lookup_frame_trans [OF f1 Relationships_get_lookup_frame [OF b1 rget]])
  from wf2 C2 r C2i obtain rel where rel: "relationships w2 r = Some rel"
    "kind rel = schema i n"
    unfolding wf_def rels_ok_def by metis
  from G1 gr2 have G2: "graphs w2 g = Some G1" by simp
  from lookup_frame_graph [OF f2 G] G2
  have qG: "queued G1 = queued G" "nextFlush G1 = nextFlush G"
    by auto
  from wf have "queues_ok w" by (simp add: wf_def)
  with G obtain ps where "arrays w (queued_at (schema i n) (queued G)) = Some (flat ps)"
    unfolding queues_ok_def by blast
  then have ps2: "arrays w2 (queued_at (schema i n) (queued G)) = Some (flat ps)"
    by (simp add: lookup_frame_arrays [OF f2])
  have ci: "currentInstance w2 = currentInstance w"
    using Graph_get_currentInstance [OF get] Relationships_get_currentInstance [OF rget]
    by simp
  show ?thesis
    by (rule that [OF get rget wf2 e2 f2 G2 c qG C2 r rel ps2 ci])
qed

lemma Graph_push_lookups:
  assumes "Graph_get g i w = Inr (c, w1)" "Relationships_get schema c n w1 = Inr (r, w2)"
    and "relationships w2 r = Some rel" "graphs w2 g = Some G"
    and "arrays w2 (queued_at (kind rel) (queued G)) = Some xs"
  shows "Graph_push schema reentry g i n p w =
     (if nextFlush G
      then Some (Inr (w2\<lparr> arrays := (arrays w2)(queued_at (kind rel) (queued G) \<mapsto>
                          xs @ [QRelationship r, QPayload p]) \<rparr>))
      else (case backburner_join schema reentry (schedule g)
                  (w2\<lparr> arrays := (arrays w2)(queued_at (kind rel) (queued G) \<mapsto>
                          xs @ [QRelationship r, QPayload p]) \<rparr>) of
              None \<Rightarrow> None
            | Some (Inl e) \<Rightarrow> Some (Inl e)
            | Some (Inr w4) \<Rightarrow>
                (case graphs w4 g of
                   None \<Rightarrow> Some (Inl TypeError)
                 | Some G4 \<Rightarrow>
                     Some (Inr (w4\<lparr> graphs := (graphs w4)(g \<mapsto>
                                      G4\<lparr> nextFlush := True \<rparr>) \<rparr>)))))"
  using assms by (simp add: Graph_push_def Let_def)

lemma Graph_push_open:
  assumes wf: "wf schema w" and G: "graphs w g = Some G"
    and "currentInstance w \<or> nextFlush G"
  shows "Graph_push schema reentry g i n p w = Some (Graph_push_in_loop schema g i n p w)"
proof -
  obtain c w1 r w2 G2 rel ps where *:
    "Graph_get g i w = Inr (c, w1)" "Relationships_get schema c n w1 = Inr (r, w2)"
    "graphs w2 g = Some G2" "nextFlush G2 = nextFlush G"
    "relationships w2 r = Some rel" "kind rel = schema i n" "queued G2 = queued G"
    "arrays w2 (queued_at (schema i n) (queued G)) = Some (flat ps)"
    "currentInstance w2 = currentInstance w"
    by (rule push_lookups [OF wf G, of i n]) blast
  from * have xs: "arrays w2 (queued_at (kind rel) (queued G2)) = Some (flat ps)" by simp
  note gen = Graph_push_lookups [OF *(1,2,5,3) xs, of reentry p]
  note loop = Graph_push_in_loop_enqueue [OF *(1,2,5,3) xs, of p]
  show ?thesis
  proof (cases "nextFlush G")
    case True
    with *(4) have "G2\<lparr> nextFlush := True \<rparr> = G2" by simp
    with *(3) have "(graphs w2)(g \<mapsto> G2\<lparr> nextFlush := True \<rparr>) = graphs w2"
      by (simp add: map_upd_triv)
    with True *(4) show ?thesis
      unfolding gen loop by (simp add: enqueue_def)
  next
    case False
    with assms(3) *(9) have "currentInstance w2" by simp
    with False *(3,4) show ?thesis
      unfolding gen loop by (simp add: enqueue_def backburner_join_def schedule_def)
  qed
qed

text \<open>
  With no run loop open and the flag clear, \<^verbatim>\<open>push\<close> runs a whole run loop before it sets
  the flag.
\<close>

lemma Graph_push_closed:
  assumes wf: "wf schema w" and G: "graphs w g = Some G"
    and "\<not> currentInstance w" "\<not> nextFlush G"
  obtains w3 where
    "Graph_push schema reentry g i n p w =
       (case backburner_end schema reentry w3 of
          None \<Rightarrow> None
        | Some (Inl e) \<Rightarrow> Some (Inl e)
        | Some (Inr w4) \<Rightarrow>
            (case graphs w4 g of
               None \<Rightarrow> Some (Inl TypeError)
             | Some G4 \<Rightarrow>
                 Some (Inr (w4\<lparr> graphs := (graphs w4)(g \<mapsto> G4\<lparr> nextFlush := True \<rparr>) \<rparr>))))"
    "wf schema w3" "extends w w3" "relationship_of w3 g i n \<noteq> None"
proof -
  obtain c w1 r w2 G2 C2 rel ps where *:
    "Graph_get g i w = Inr (c, w1)" "Relationships_get schema c n w1 = Inr (r, w2)"
    "wf schema w2" "extends w w2"
    "graphs w2 g = Some G2" "identifiers G2 i = Some c" "nextFlush G2 = nextFlush G"
    "containers w2 c = Some C2" "initializedRelationships C2 n = Some r"
    "relationships w2 r = Some rel" "kind rel = schema i n" "queued G2 = queued G"
    "arrays w2 (queued_at (schema i n) (queued G)) = Some (flat ps)"
    "currentInstance w2 = currentInstance w"
    by (rule push_lookups [OF wf G, of i n]) blast
  from * have xs: "arrays w2 (queued_at (kind rel) (queued G2)) = Some (flat ps)" by simp
  let ?a = "queued_at (kind rel) (queued G2)"
  let ?w3 = "w2\<lparr> arrays := (arrays w2)(?a \<mapsto> flat ps @ [QRelationship r, QPayload p]) \<rparr>"
  let ?w4 = "schedule g (?w3\<lparr> currentInstance := True \<rparr>)"
  from assms(3,4) *(7,14)
  have eq: "Graph_push schema reentry g i n p w =
       (case backburner_end schema reentry ?w4 of
          None \<Rightarrow> None
        | Some (Inl e) \<Rightarrow> Some (Inl e)
        | Some (Inr w4) \<Rightarrow>
            (case graphs w4 g of
               None \<Rightarrow> Some (Inl TypeError)
             | Some G4 \<Rightarrow>
                 Some (Inr (w4\<lparr> graphs := (graphs w4)(g \<mapsto> G4\<lparr> nextFlush := True \<rparr>) \<rparr>))))"
    unfolding Graph_push_lookups [OF *(1,2,10,5) xs, of reentry p]
    by (simp add: backburner_join_def)
  have wf3: "wf schema ?w3"
    by (rule wf_append_queue [OF *(3,5,10) refl xs])
  have "wf schema ?w4 = wf schema ?w3" by (rule wf_cong) (simp_all add: schedule_def)
  with wf3 have wf4: "wf schema ?w4" by simp
  have "extends w2 ?w4" by (simp add: extends_def schedule_def)
  with *(4) have e4: "extends w ?w4" by (rule extends_trans)
  from *(5,6,8,9) have "relationship_of ?w4 g i n = Some r"
    by (simp add: relationship_of_def schedule_def)
  then have "relationship_of ?w4 g i n \<noteq> None" by simp
  with eq wf4 e4 show ?thesis by (rule that)
qed

lemma Graph_push_wf:
  assumes wf: "wf schema w" and push: "Graph_push schema reentry g i n p w = Some (Inr w')"
  shows "wf schema w' \<and> extends w w'"
proof -
  from push obtain G where G: "graphs w g = Some G"
    by (auto simp: Graph_push_def Graph_get_def split: option.splits)
  show ?thesis
  proof (cases "currentInstance w \<or> nextFlush G")
    case True
    from Graph_push_open [OF wf G True, of reentry i n p] push
    have "Graph_push_in_loop schema g i n p w = Inr w'" by simp
    then show ?thesis by (rule Graph_push_in_loop_wf [OF wf])
  next
    case False
    then have closed: "\<not> currentInstance w" "\<not> nextFlush G" by simp_all
    obtain w3 where *:
      "Graph_push schema reentry g i n p w =
         (case backburner_end schema reentry w3 of
            None \<Rightarrow> None
          | Some (Inl e) \<Rightarrow> Some (Inl e)
          | Some (Inr w4) \<Rightarrow>
              (case graphs w4 g of
                 None \<Rightarrow> Some (Inl TypeError)
               | Some G4 \<Rightarrow>
                   Some (Inr (w4\<lparr> graphs := (graphs w4)(g \<mapsto> G4\<lparr> nextFlush := True \<rparr>) \<rparr>))))"
      "wf schema w3" "extends w w3"
      by (rule Graph_push_closed [OF wf G closed, of reentry i n p]) blast
    from push obtain w4 G4 where end4: "backburner_end schema reentry w3 = Some (Inr w4)"
      and G4: "graphs w4 g = Some G4"
      and w': "w' = w4\<lparr> graphs := (graphs w4)(g \<mapsto> G4\<lparr> nextFlush := True \<rparr>) \<rparr>"
      unfolding *(1) by (auto split: option.splits sum.splits)
    from backburner_end_wf [OF *(2) end4] have wf4: "wf schema w4" and e4: "extends w3 w4"
      by simp_all
    have "wf schema w'" unfolding w' by (rule wf_nextFlush [OF wf4 G4])
    moreover from G4 have "extends w4 w'" unfolding w' by (simp add: extends_def)
    with extends_trans [OF *(3) e4] have "extends w w'" by (rule extends_trans)
    ultimately show ?thesis ..
  qed
qed

lemma Graph_push_in_loop_currentInstance:
  "Graph_push_in_loop schema g i n p w = Inr w' \<Longrightarrow> currentInstance w' = currentInstance w"
  by (auto simp: Graph_push_in_loop_def Graph_get_def Relationships_get_def schedule_def Let_def
      split: option.splits sum.splits if_splits)

lemma Graph_push_all_open:
  assumes "wf schema w" "graphs w g = Some G" "currentInstance w"
  shows "Graph_push_all schema reentry g pushes w = Some (push_all schema g pushes w)"
  using assms
proof (induction pushes arbitrary: w G)
  case Nil
  then show ?case by simp
next
  case (Cons x pushes)
  obtain i n p where x: "x = (i, n, p)" by (cases x)
  from Graph_push_in_loop_succeeds [OF Cons.prems(1,2), of i n p] obtain w1 where
    w1: "Graph_push_in_loop schema g i n p w = Inr w1" ..
  from Graph_push_in_loop_wf [OF Cons.prems(1) w1]
  have wf1: "wf schema w1" and e1: "extends w w1" by simp_all
  from extends_graph [OF e1 Cons.prems(2)] obtain G1 where G1: "graphs w1 g = Some G1" ..
  from Graph_push_in_loop_currentInstance [OF w1] Cons.prems(3)
  have c1: "currentInstance w1" by simp
  from Cons.prems(3) have "currentInstance w \<or> nextFlush G" ..
  from Graph_push_open [OF Cons.prems(1,2) this, of reentry i n p] w1
  have "Graph_push schema reentry g i n p w = Some (Inr w1)" by simp
  with Cons.IH [OF wf1 G1 c1] w1 x show ?case by simp
qed

lemma step_wf:
  assumes "step schema reentry w w'" "wf schema w"
  shows "wf schema w' \<and> extends w w'"
proof -
  from assms(2) have b: "bounded w" by (simp add: wf_def)
  from assms(1) show ?thesis
  proof (cases rule: step.cases)
    case (step_graphFor s g)
    from graphFor_wf [OF assms(2) this] graphFor_extends [OF b this] show ?thesis ..
  next
    case (step_get g i c)
    from Graph_get_wf [OF assms(2) this] Graph_get_extends [OF b this] show ?thesis ..
  next
    case (step_getImplicit g i d)
    from Graph_getImplicit_wf [OF assms(2) this] Graph_getImplicit_extends [OF b this]
    show ?thesis ..
  next
    case (step_relationship c n r)
    from Relationships_get_wf [OF assms(2) this] Relationships_get_extends [OF b this]
    show ?thesis ..
  next
    case (step_push g i n p)
    then show ?thesis by (rule Graph_push_wf [OF assms(2)])
  next
    case step_begin
    have "wf schema w' = wf schema w" unfolding step_begin by (rule wf_cong) simp_all
    moreover have "extends w w'" unfolding step_begin by (simp add: extends_def)
    ultimately show ?thesis using assms(2) by simp
  next
    case step_run
    then show ?thesis by (rule run_scheduled_wf [OF assms(2)])
  next
    case step_end
    from backburner_end_wf [OF assms(2) this(2)] show ?thesis .
  qed
qed

lemma steps_wf:
  assumes "(step schema reentry)\<^sup>*\<^sup>* w w'" "wf schema w"
  shows "wf schema w' \<and> extends w w'"
  using assms
proof (induction rule: rtranclp_induct)
  case base
  then show ?case by (simp add: extends_refl)
next
  case (step y z)
  then have "wf schema y" "extends w y" by simp_all
  moreover from step_wf [OF step.hyps(2) this(1)] have "wf schema z" "extends y z" by simp_all
  ultimately show ?case using extends_trans by blast
qed

lemma Graph_get_result:
  "Graph_get g i w = Inr (c, w') \<Longrightarrow> \<exists>G'. graphs w' g = Some G' \<and> identifiers G' i = Some c"
  by (auto simp: Graph_get_def Let_def split: option.splits)

lemma Graph_get_new:
  assumes "bounded w" "graphs w g = Some G" "identifiers G i = None"
    and "Graph_get g i w = Inr (c, w')"
  shows "containers w c = None \<and>
         containers w' c = Some \<lparr> rs_graph = g, rs_identifier = i,
                                   initializedRelationships = Map.empty \<rparr>"
  using assms by (auto simp: Graph_get_def Let_def bounded_def)

lemma extends_identifiers:
  "extends w w' \<Longrightarrow> graphs w g = Some G \<Longrightarrow> identifiers G i = Some c \<Longrightarrow>
   \<exists>G'. graphs w' g = Some G' \<and> identifiers G' i = Some c"
  unfolding extends_def by blast

lemma wf_container_owner:
  "wf schema w \<Longrightarrow> graphs w g = Some G \<Longrightarrow> identifiers G i = Some c \<Longrightarrow>
   \<exists>C. containers w c = Some C \<and> rs_graph C = g \<and> rs_identifier C = i"
  unfolding wf_def identifiers_ok_def by blast

lemma one_store_wf: "wf schema one_store"
  unfolding one_store_def by (rule graphFor_wf [OF wf_init]) (rule surjective_pairing)

lemma one_store_graph:
  "graphs one_store 0 = Some \<lparr> queued = \<lparr> belongsTo = 1, hasMany = 2 \<rparr>, nextFlush = False,
      identifiers = Map.empty, implicitMap = Map.empty, storeWrapper = 0 \<rparr>"
  by (simp add: one_store_def graphFor_def new_Graph_def init_def)

text \<open>
  C5. \<^verbatim>\<open>Graph.get\<close> creates the container of an identifier lazily and caches it: the first
  call for an identifier allocates a new container and stores it in the graph; every later
  call with that identifier, after any further operations of the program, returns the same
  container and changes nothing; and a call for another identifier, or on another graph,
  never returns that container.
\<close>

theorem Graph_get_lazily_creates_and_caches:
  assumes "wf schema w" "graphs w g = Some G"
  shows "\<exists>c w1. Graph_get g i w = Inr (c, w1) \<and>
           (identifiers G i = None \<longrightarrow>
              containers w c = None \<and>
              containers w1 c = Some \<lparr> rs_graph = g, rs_identifier = i,
                                        initializedRelationships = Map.empty \<rparr>) \<and>
           (\<exists>G1. graphs w1 g = Some G1 \<and> identifiers G1 i = Some c) \<and>
           (\<forall>w2. (step schema reentry)\<^sup>*\<^sup>* w1 w2 \<longrightarrow>
              Graph_get g i w2 = Inr (c, w2) \<and>
              (\<forall>g' j c' w3. (g', j) \<noteq> (g, i) \<longrightarrow> Graph_get g' j w2 = Inr (c', w3) \<longrightarrow> c' \<noteq> c))"
proof -
  from Graph_get_succeeds [OF assms(2), of i] obtain c w1 G1 where
    get: "Graph_get g i w = Inr (c, w1)" and G1: "graphs w1 g = Some G1"
    "identifiers G1 i = Some c" by blast
  from assms(1) have b: "bounded w" by (simp add: wf_def)
  have wf1: "wf schema w1" by (rule Graph_get_wf [OF assms(1) get])
  have later: "Graph_get g i w2 = Inr (c, w2) \<and>
      (\<forall>g' j c' w3. (g', j) \<noteq> (g, i) \<longrightarrow> Graph_get g' j w2 = Inr (c', w3) \<longrightarrow> c' \<noteq> c)"
    if steps: "(step schema reentry)\<^sup>*\<^sup>* w1 w2" for w2
  proof -
    from steps_wf [OF steps wf1] have wf2: "wf schema w2" and e2: "extends w1 w2" by simp_all
    from extends_identifiers [OF e2 G1] obtain G2 where
      G2: "graphs w2 g = Some G2" "identifiers G2 i = Some c" by blast
    then have "Graph_get g i w2 = Inr (c, w2)" by (simp add: Graph_get_def)
    moreover have "c' \<noteq> c" if ne: "(g', j) \<noteq> (g, i)" and get': "Graph_get g' j w2 = Inr (c', w3)"
      for g' j c' w3
    proof
      assume eq: "c' = c"
      have wf3: "wf schema w3" by (rule Graph_get_wf [OF wf2 get'])
      from wf2 have "bounded w2" by (simp add: wf_def)
      from Graph_get_extends [OF this get'] have e3: "extends w2 w3" .
      from extends_identifiers [OF e3 G2] obtain G3 where
        G3: "graphs w3 g = Some G3" "identifiers G3 i = Some c" by blast
      from Graph_get_result [OF get'] obtain G3' where
        G3': "graphs w3 g' = Some G3'" "identifiers G3' j = Some c'" by blast
      from wf_container_owner [OF wf3 G3] wf_container_owner [OF wf3 G3'] eq
      have "g' = g \<and> j = i" by auto
      with ne show False by simp
    qed
    ultimately show ?thesis by blast
  qed
  have new: "identifiers G i = None \<longrightarrow>
      containers w c = None \<and>
      containers w1 c = Some \<lparr> rs_graph = g, rs_identifier = i,
                                initializedRelationships = Map.empty \<rparr>"
    using Graph_get_new [OF b assms(2) _ get] by blast
  have stored: "\<exists>G1. graphs w1 g = Some G1 \<and> identifiers G1 i = Some c"
    using G1 by blast
  from later have later': "\<forall>w2. (step schema reentry)\<^sup>*\<^sup>* w1 w2 \<longrightarrow>
      Graph_get g i w2 = Inr (c, w2) \<and>
      (\<forall>g' j c' w3. (g', j) \<noteq> (g, i) \<longrightarrow> Graph_get g' j w2 = Inr (c', w3) \<longrightarrow> c' \<noteq> c)"
    by (intro allI impI)
  show ?thesis
    by (intro exI [of _ c] exI [of _ w1] conjI get new stored later')
qed

theorem Graph_get_lazily_creates_and_caches_witness:
  "wf example_schema one_store \<and> graphs one_store 0 \<noteq> None \<and>
   (\<exists>c w1. Graph_get 0 (7::nat) one_store = Inr (c, w1) \<and>
      containers one_store c = None \<and> containers w1 c \<noteq> None \<and>
      Graph_get 0 7 w1 = Inr (c, w1) \<and>
      (\<forall>c' w3. Graph_get 0 8 w1 = Inr (c', w3) \<longrightarrow> c' \<noteq> c))"
proof -
  note wf = one_store_wf [of example_schema]
  from Graph_get_lazily_creates_and_caches [OF wf one_store_graph, of 7 no_reentry]
  obtain c w1 where *: "Graph_get 0 (7::nat) one_store = Inr (c, w1)"
    "containers one_store c = None \<and> containers w1 c \<noteq> None"
    "\<forall>w2. (step example_schema no_reentry)\<^sup>*\<^sup>* w1 w2 \<longrightarrow>
       Graph_get 0 7 w2 = Inr (c, w2) \<and>
       (\<forall>g' j c' w3. (g', j) \<noteq> (0, 7) \<longrightarrow> Graph_get g' j w2 = Inr (c', w3) \<longrightarrow> c' \<noteq> c)"
    by auto
  from *(3) have **: "Graph_get 0 7 w1 = Inr (c, w1) \<and>
      (\<forall>g' j c' w3. (g', j) \<noteq> (0, 7) \<longrightarrow> Graph_get g' j w1 = Inr (c', w3) \<longrightarrow> c' \<noteq> c)"
    by blast
  have "(0::nat, 8::nat) \<noteq> (0, 7)" by simp
  with ** have "Graph_get 0 7 w1 = Inr (c, w1) \<and>
      (\<forall>c' w3. Graph_get 0 8 w1 = Inr (c', w3) \<longrightarrow> c' \<noteq> c)"
    by blast
  with wf * show ?thesis by (auto simp: one_store_graph)
qed

lemma graphFor_registered: "graphFor s w = (g, w') \<Longrightarrow> Graphs w' s = Some g"
  by (auto simp: graphFor_def new_Graph_def Let_def split: option.splits)

lemma extends_Graphs: "extends w w' \<Longrightarrow> Graphs w s = Some g \<Longrightarrow> Graphs w' s = Some g"
  unfolding extends_def by blast

lemma wf_graph_store:
  "wf schema w \<Longrightarrow> Graphs w s = Some g \<Longrightarrow> \<exists>G. graphs w g = Some G \<and> storeWrapper G = s"
  unfolding wf_def graphs_ok_def by blast

lemma relationship_of_SomeD:
  assumes "relationship_of w g i n = Some r"
  obtains G c C where "graphs w g = Some G" "identifiers G i = Some c"
    "containers w c = Some C" "initializedRelationships C n = Some r"
  using assms by (auto simp: relationship_of_def split: option.splits)

lemma relationship_of_inj:
  assumes wf: "wf schema w"
    and 1: "relationship_of w g1 i1 n1 = Some r" and 2: "relationship_of w g2 i2 n2 = Some r"
  shows "g1 = g2 \<and> i1 = i2 \<and> n1 = n2"
proof -
  from 1 obtain G1 c1 C1 where a: "graphs w g1 = Some G1" "identifiers G1 i1 = Some c1"
    "containers w c1 = Some C1" "initializedRelationships C1 n1 = Some r"
    by (rule relationship_of_SomeD)
  from 2 obtain G2 c2 C2 where b: "graphs w g2 = Some G2" "identifiers G2 i2 = Some c2"
    "containers w c2 = Some C2" "initializedRelationships C2 n2 = Some r"
    by (rule relationship_of_SomeD)
  from wf a(3,4) b(3,4) have c: "c1 = c2" and n: "n1 = n2"
    unfolding wf_def rels_inj_def by blast+
  from wf_container_owner [OF wf a(1,2)] wf_container_owner [OF wf b(1,2)] c
  have "g1 = g2 \<and> i1 = i2" by auto
  with n show ?thesis by simp
qed

lemma two_stores_wf: "wf schema two_stores"
proof -
  have "wf schema (snd (graphFor 5 one_store))"
    by (rule graphFor_wf [OF one_store_wf]) (rule surjective_pairing)
  moreover have "wf schema two_stores = wf schema (snd (graphFor 5 one_store))"
    unfolding two_stores_def by (rule wf_cong) simp_all
  ultimately show ?thesis by simp
qed

text \<open>
  C6. The graph is a singleton per store: \<^verbatim>\<open>graphFor\<close> called again with the same store
  wrapper, after any further operations of the program, returns the same graph and changes
  nothing; another store wrapper never receives that graph; and a relationship held by one
  graph is not held by any other graph.
\<close>

theorem graphFor_singleton_per_store:
  assumes "wf schema w"
  shows "\<exists>g w1. graphFor s w = (g, w1) \<and>
           (\<forall>w2. (step schema reentry)\<^sup>*\<^sup>* w1 w2 \<longrightarrow>
              graphFor s w2 = (g, w2) \<and>
              (\<forall>s' g' w3. s' \<noteq> s \<longrightarrow> graphFor s' w2 = (g', w3) \<longrightarrow> g' \<noteq> g) \<and>
              (\<forall>g1 g2 i1 n1 i2 n2 r. g1 \<noteq> g2 \<longrightarrow> relationship_of w2 g1 i1 n1 = Some r \<longrightarrow>
                 relationship_of w2 g2 i2 n2 \<noteq> Some r))"
proof -
  obtain g w1 where gf: "graphFor s w = (g, w1)" by (cases "graphFor s w")
  have wf1: "wf schema w1" by (rule graphFor_wf [OF assms gf])
  have reg: "Graphs w1 s = Some g" by (rule graphFor_registered [OF gf])
  have later: "graphFor s w2 = (g, w2) \<and>
      (\<forall>s' g' w3. s' \<noteq> s \<longrightarrow> graphFor s' w2 = (g', w3) \<longrightarrow> g' \<noteq> g) \<and>
      (\<forall>g1 g2 i1 n1 i2 n2 r. g1 \<noteq> g2 \<longrightarrow> relationship_of w2 g1 i1 n1 = Some r \<longrightarrow>
         relationship_of w2 g2 i2 n2 \<noteq> Some r)"
    if steps: "(step schema reentry)\<^sup>*\<^sup>* w1 w2" for w2
  proof (intro conjI allI impI)
    from steps_wf [OF steps wf1] have wf2: "wf schema w2" and e2: "extends w1 w2" by simp_all
    from extends_Graphs [OF e2 reg] have reg2: "Graphs w2 s = Some g" .
    then show "graphFor s w2 = (g, w2)" by (simp add: graphFor_def)
    {
      fix s' g' w3 assume ne: "s' \<noteq> s" and gf': "graphFor s' w2 = (g', w3)"
      have wf3: "wf schema w3" by (rule graphFor_wf [OF wf2 gf'])
      from wf2 have "bounded w2" by (simp add: wf_def)
      from graphFor_extends [OF this gf'] have e3: "extends w2 w3" .
      from wf_graph_store [OF wf3 extends_Graphs [OF e3 reg2]] obtain G3 where
        "graphs w3 g = Some G3" "storeWrapper G3 = s" by blast
      moreover from wf_graph_store [OF wf3 graphFor_registered [OF gf']] obtain G3' where
        "graphs w3 g' = Some G3'" "storeWrapper G3' = s'" by blast
      ultimately show "g' \<noteq> g" using ne by auto
    }
    {
      fix g1 g2 :: ref and i1 i2 n1 n2 r
      assume "g1 \<noteq> g2" "relationship_of w2 g1 i1 n1 = Some r"
      with relationship_of_inj [OF wf2] show "relationship_of w2 g2 i2 n2 \<noteq> Some r" by blast
    }
  qed
  then have "\<forall>w2. (step schema reentry)\<^sup>*\<^sup>* w1 w2 \<longrightarrow>
      graphFor s w2 = (g, w2) \<and>
      (\<forall>s' g' w3. s' \<noteq> s \<longrightarrow> graphFor s' w2 = (g', w3) \<longrightarrow> g' \<noteq> g) \<and>
      (\<forall>g1 g2 i1 n1 i2 n2 r. g1 \<noteq> g2 \<longrightarrow> relationship_of w2 g1 i1 n1 = Some r \<longrightarrow>
         relationship_of w2 g2 i2 n2 \<noteq> Some r)"
    by (intro allI impI)
  with gf show ?thesis by (intro exI [of _ g] exI [of _ w1] conjI)
qed

lemma two_stores_eval:
  "two_stores =
     \<lparr> Graphs = [0 \<mapsto> 0, 5 \<mapsto> 3],
       graphs = [0 \<mapsto> \<lparr> queued = \<lparr> belongsTo = 1, hasMany = 2 \<rparr>, nextFlush = False,
                        identifiers = Map.empty, implicitMap = Map.empty, storeWrapper = 0 \<rparr>,
                 3 \<mapsto> \<lparr> queued = \<lparr> belongsTo = 4, hasMany = 5 \<rparr>, nextFlush = False,
                        identifiers = Map.empty, implicitMap = Map.empty, storeWrapper = 5 \<rparr>],
       containers = Map.empty, relationships = Map.empty,
       arrays = [1 \<mapsto> [], 2 \<mapsto> [], 4 \<mapsto> [], 5 \<mapsto> []],
       dicts = Map.empty, nextRef = 6, currentInstance = True, flushRelationships = [],
       applied = [] \<rparr>"
  by (simp add: two_stores_def one_store_def graphFor_def new_Graph_def init_def
      numeral_2_eq_2 [symmetric])

lemma push_eval:
  "Graph_push example_schema no_reentry 0 7 ''comments'' 42 two_stores = Some (Inr pushed_once)"
  "relationship_of pushed_once 0 7 ''comments'' = Some 7"
  "relationship_of pushed_once 3 7 ''comments'' = None"
  "graphFor 0 pushed_once = (0, pushed_once)"
  "fst (graphFor 5 pushed_once) = 3"
  by (simp_all add: pushed_once_def two_stores_eval Graph_push_def Graph_get_def
      Relationships_get_def example_schema_def schedule_def backburner_join_def Let_def
      relationship_of_def graphFor_def)

lemma one_store_steps:
  "(step example_schema no_reentry)\<^sup>*\<^sup>* one_store pushed_once"
proof -
  let ?w = "snd (graphFor 5 one_store)"
  have "step example_schema no_reentry one_store ?w"
    by (rule step_graphFor) (rule surjective_pairing)
  moreover have "\<not> currentInstance ?w"
    by (simp add: one_store_def graphFor_def new_Graph_def init_def)
  then have "step example_schema no_reentry ?w two_stores"
    unfolding two_stores_def by (rule step_begin)
  moreover have "step example_schema no_reentry two_stores pushed_once"
    by (rule step_push) (rule push_eval(1))
  ultimately show ?thesis by (meson rtranclp.rtrancl_into_rtrancl rtranclp.rtrancl_refl)
qed

theorem graphFor_singleton_per_store_witness:
  "wf example_schema (init :: (nat, nat) world) \<and>
   graphFor 0 (init :: (nat, nat) world) = (0, one_store) \<and>
   (step example_schema no_reentry)\<^sup>*\<^sup>* one_store pushed_once \<and>
   graphFor 0 pushed_once = (0, pushed_once) \<and>
   (5::nat) \<noteq> 0 \<and> fst (graphFor 5 pushed_once) \<noteq> 0 \<and>
   (0::nat) \<noteq> 3 \<and> relationship_of pushed_once 0 7 ''comments'' = Some 7 \<and>
   relationship_of pushed_once 3 7 ''comments'' \<noteq> Some 7"
proof -
  have gf: "graphFor 0 (init :: (nat, nat) world) = (0, one_store)"
    by (simp add: one_store_def graphFor_def new_Graph_def init_def)
  have "wf example_schema (init :: (nat, nat) world)" by (rule wf_init)
  from graphFor_singleton_per_store [OF this, of 0 no_reentry] gf
  have *: "\<forall>w2. (step example_schema no_reentry)\<^sup>*\<^sup>* one_store w2 \<longrightarrow>
      graphFor 0 w2 = (0, w2) \<and>
      (\<forall>s' g' w3. s' \<noteq> 0 \<longrightarrow> graphFor s' w2 = (g', w3) \<longrightarrow> g' \<noteq> 0) \<and>
      (\<forall>g1 g2 i1 n1 i2 n2 r. g1 \<noteq> g2 \<longrightarrow> relationship_of w2 g1 i1 n1 = Some r \<longrightarrow>
         relationship_of w2 g2 i2 n2 \<noteq> Some r)"
    by auto
  from * one_store_steps have a: "graphFor 0 pushed_once = (0, pushed_once)"
    and b: "\<forall>s' g' w3. s' \<noteq> 0 \<longrightarrow> graphFor s' pushed_once = (g', w3) \<longrightarrow> g' \<noteq> 0"
    and c: "\<forall>g1 g2 i1 n1 i2 n2 r. g1 \<noteq> g2 \<longrightarrow>
        relationship_of pushed_once g1 i1 n1 = Some r \<longrightarrow>
        relationship_of pushed_once g2 i2 n2 \<noteq> Some r"
    by blast+
  from b have b': "fst (graphFor 5 pushed_once) \<noteq> 0"
    by (metis prod.collapse zero_neq_numeral)
  from c push_eval(2) have c': "relationship_of pushed_once 3 7 ''comments'' \<noteq> Some 7"
    by (metis zero_neq_numeral)
  from wf_init gf one_store_steps a b' c' push_eval(2) show ?thesis by simp
qed

lemma extends_relationship_of:
  assumes "extends w w'" "relationship_of w g i n = Some r"
  shows "relationship_of w' g i n = Some r"
proof -
  from assms(2) obtain G c C where a: "graphs w g = Some G" "identifiers G i = Some c"
    "containers w c = Some C" "initializedRelationships C n = Some r"
    by (rule relationship_of_SomeD)
  from extends_identifiers [OF assms(1) a(1,2)] obtain G' where
    G': "graphs w' g = Some G'" "identifiers G' i = Some c" by blast
  from assms(1) a(3,4) obtain C' where "containers w' c = Some C'"
    "initializedRelationships C' n = Some r"
    unfolding extends_def by blast
  with G' show ?thesis by (simp add: relationship_of_def)
qed

lemma enqueue_fields:
  "Graphs (enqueue g G a xs r p w) = Graphs w"
  "containers (enqueue g G a xs r p w) = containers w"
  "relationships (enqueue g G a xs r p w) = relationships w"
  "dicts (enqueue g G a xs r p w) = dicts w"
  "applied (enqueue g G a xs r p w) = applied w"
  "nextRef (enqueue g G a xs r p w) = nextRef w"
  "graphs (enqueue g G a xs r p w) = (graphs w)(g \<mapsto> G\<lparr> nextFlush := True \<rparr>)"
  "arrays (enqueue g G a xs r p w) = (arrays w)(a \<mapsto> xs @ [QRelationship r, QPayload p])"
  "flushRelationships (enqueue g G a xs r p w) =
     (if nextFlush G then flushRelationships w else flushRelationships w @ [g])"
  by (simp_all add: enqueue_def)






text \<open>
  C9. For every store wrapper, every identifier that is present and every non-empty
  property name, the functions \<^verbatim>\<open>relationshipsFor\<close> and \<^verbatim>\<open>relationshipStateFor\<close> of
  \<^verbatim>\<open>part_002\<close> return the same result, and leave the same state, as the functions of those
  names in \<^verbatim>\<open>record-data-for.ts\<close>: the fallback to the internal model is not taken.
\<close>

theorem record_data_for_versions_agree:
  assumes "truthy identifier" "propertyName \<noteq> []"
  shows "relationshipsFor_part_002 wrapper identifier w =
           relationshipsFor (wrapper_ref wrapper) identifier w \<and>
         relationshipStateFor_part_002 schema wrapper identifier (JString propertyName) w =
           relationshipStateFor schema (wrapper_ref wrapper) identifier propertyName w"
  using assms
  by (simp add: relationshipsFor_part_002_def relationshipsFor_def
      relationshipStateFor_part_002_def relationshipStateFor_def
      split: sum.splits prod.splits)

theorem record_data_for_versions_agree_witness:
  "truthy (JIdentifier (7::nat)) \<and> ''comments'' \<noteq> [] \<and>
   relationshipsFor_part_002 (WrapperArg 0 None) (JIdentifier 7) (init :: (nat jsval, nat) world) =
     relationshipsFor 0 (JIdentifier 7) init \<and>
   relationshipStateFor_part_002 (\<lambda>i n. HasMany) (WrapperArg 0 None) (JIdentifier 7)
       (JString ''comments'') (init :: (nat jsval, nat) world) =
     relationshipStateFor (\<lambda>i n. HasMany) 0 (JIdentifier 7) ''comments'' init \<and>
   (\<exists>r w'. relationshipStateFor (\<lambda>i n. HasMany) 0 (JIdentifier (7::nat)) ''comments''
       (init :: (nat jsval, nat) world) = Inr (r, w') \<and> r = 4)"
proof -
  have a: "truthy (JIdentifier (7::nat))" and b: "''comments'' \<noteq> []" by simp_all
  from record_data_for_versions_agree [OF a b, of "WrapperArg 0 None"
      "init :: (nat jsval, nat) world" "\<lambda>i n. HasMany"]
  show ?thesis
    by (simp add: relationshipStateFor_def relationshipsFor_def graphFor_def new_Graph_def
        Graph_get_def Relationships_get_def init_def Let_def)
qed

lemma cache_grows_refl: "cache_grows c c"
  by (simp add: cache_grows_def)

lemma cache_grows_trans: "cache_grows c c1 \<Longrightarrow> cache_grows c1 c2 \<Longrightarrow> cache_grows c c2"
  unfolding cache_grows_def by (metis le_trans less_le_trans)

lemma getOrCreate_ok:
  "cache_ok c \<Longrightarrow> getOrCreate gen ty i cid c = (r, c') \<Longrightarrow> cache_ok c'"
  unfolding cache_ok_def
  by (auto simp: getOrCreate_def allocateIdentifier_def Let_def less_Suc_eq
      split: option.splits if_splits)

lemma getOrCreate_grows:
  "getOrCreate gen ty i cid c = (r, c') \<Longrightarrow> cache_grows c c'"
  unfolding cache_grows_def
  by (auto simp: getOrCreate_def allocateIdentifier_def Let_def split: option.splits)

lemma getOrCreate_registered:
  "cache_ok c \<Longrightarrow> getOrCreate gen ty (Some i) cid c = (r, c') \<Longrightarrow>
   byTypeAndId c' (ty, i) = Some r \<and> r < nextIdentifier c'"
  unfolding cache_ok_def
  by (auto simp: getOrCreate_def allocateIdentifier_def Let_def split: option.splits)

lemma lookups_grows:
  "cache_ok c \<Longrightarrow> cache_ok (lookups gen calls c) \<and> cache_grows c (lookups gen calls c)"
proof (induction calls arbitrary: c)
  case Nil
  then show ?case by (simp add: cache_grows_refl)
next
  case (Cons x calls)
  obtain ty i cid where x: "x = (ty, i, cid)" by (cases x)
  obtain r c1 where g: "getOrCreate gen ty i cid c = (r, c1)" by (cases "getOrCreate gen ty i cid c")
  from getOrCreate_ok [OF Cons.prems g] have ok1: "cache_ok c1" .
  from Cons.IH [OF ok1] getOrCreate_grows [OF g] x g show ?case
    using cache_grows_trans by auto
qed

text \<open>
  C7. Identity uniqueness in the identifier cache: for a type and a non-null id,
  \<^verbatim>\<open>getOrCreate\<close> called again, after any number of other lookups, returns the identical
  identifier (the same reference) and changes nothing, and the identifier object itself
  is as it was; an identifier already cached for (type, id) is the one returned. So two
  record datas created by \<^verbatim>\<open>createRecordDataFor\<close> for the same model name and id are built
  on the same identifier.
\<close>

theorem identifier_cache_identity_uniqueness:
  assumes "cache_ok c" "getOrCreate generateLid type (Some i) clientId c = (r, c1)"
    and "c2 = lookups generateLid calls c1"
  shows "getOrCreate generateLid type (Some i) clientId' c2 = (r, c2) \<and>
         stableIdentifiers c2 r = stableIdentifiers c1 r \<and>
         (\<forall>r0. byTypeAndId c (type, i) = Some r0 \<longrightarrow> r = r0 \<and> c1 = c) \<and>
         (\<forall>l l' s s' rd1 c1' rd2 c2'.
            createRecordDataFor generateLid True type (Some i) l s c = (rd1, c1') \<longrightarrow>
            createRecordDataFor generateLid True type (Some i) l' s'
              (lookups generateLid calls c1') = (rd2, c2') \<longrightarrow>
            (\<exists>identifier. rd1 = RecordData_identifier identifier s \<and>
                           rd2 = RecordData_identifier identifier s'))"
proof -
  have again: "getOrCreate generateLid type (Some i) cid' (lookups generateLid calls k1) =
        (q, lookups generateLid calls k1) \<and>
      stableIdentifiers (lookups generateLid calls k1) q = stableIdentifiers k1 q"
    if "getOrCreate generateLid type (Some i) cid c = (q, k1)" for cid cid' q k1
  proof -
    have ok1: "cache_ok k1" by (rule getOrCreate_ok [OF assms(1) that])
    from getOrCreate_registered [OF assms(1) that]
    have reg: "byTypeAndId k1 (type, i) = Some q" "q < nextIdentifier k1" by simp_all
    from lookups_grows [OF ok1, of generateLid calls]
    have gr: "cache_grows k1 (lookups generateLid calls k1)" by simp
    from gr reg have "byTypeAndId (lookups generateLid calls k1) (type, i) = Some q"
      "stableIdentifiers (lookups generateLid calls k1) q = stableIdentifiers k1 q"
      unfolding cache_grows_def by blast+
    then show ?thesis by (simp add: getOrCreate_def)
  qed
  have hit: "\<forall>r0. byTypeAndId c (type, i) = Some r0 \<longrightarrow> r = r0 \<and> c1 = c"
    using assms(2) by (auto simp: getOrCreate_def)
  have rds: "\<exists>identifier. rd1 = RecordData_identifier identifier s \<and>
                           rd2 = RecordData_identifier identifier s'"
    if a: "createRecordDataFor generateLid True type (Some i) l s c = (rd1, c1')"
      and b: "createRecordDataFor generateLid True type (Some i) l' s'
              (lookups generateLid calls c1') = (rd2, c2')"
    for l l' s s' rd1 c1' rd2 c2'
  proof -
    obtain q where q: "getOrCreate generateLid type (Some i) (Some l) c = (q, c1')"
      "rd1 = RecordData_identifier q s"
      using a by (auto simp: createRecordDataFor_def split: prod.splits)
    from again [OF q(1), of "Some l'"] b have "rd2 = RecordData_identifier q s'"
      by (auto simp: createRecordDataFor_def)
    with q(2) show ?thesis by blast
  qed
  from again [OF assms(2), of clientId'] hit rds show ?thesis
    unfolding assms(3) by blast
qed

theorem identifier_cache_identity_uniqueness_witness:
  "cache_ok emptyCache \<and>
   getOrCreate (\<lambda>n. replicate n CHR ''l'') ''post'' (Some ''1'') None emptyCache =
     (0, snd (getOrCreate (\<lambda>n. replicate n CHR ''l'') ''post'' (Some ''1'') None emptyCache)) \<and>
   getOrCreate (\<lambda>n. replicate n CHR ''l'') ''post'' (Some ''1'') (Some ''x'')
     (lookups (\<lambda>n. replicate n CHR ''l'') [(''comment'', Some ''1'', None), (''post'', None, None)]
        (snd (getOrCreate (\<lambda>n. replicate n CHR ''l'') ''post'' (Some ''1'') None emptyCache))) =
     (0, lookups (\<lambda>n. replicate n CHR ''l'') [(''comment'', Some ''1'', None), (''post'', None, None)]
        (snd (getOrCreate (\<lambda>n. replicate n CHR ''l'') ''post'' (Some ''1'') None emptyCache)))"
proof -
  have ok: "cache_ok emptyCache" by (simp add: cache_ok_def emptyCache_def)
  have g: "getOrCreate (\<lambda>n. replicate n CHR ''l'') ''post'' (Some ''1'') None emptyCache =
     (0, snd (getOrCreate (\<lambda>n. replicate n CHR ''l'') ''post'' (Some ''1'') None emptyCache))"
    by (simp add: getOrCreate_def allocateIdentifier_def emptyCache_def Let_def)
  from identifier_cache_identity_uniqueness
      [where calls = "[(''comment'', Some ''1'', None), (''post'', None, None)]"
         and clientId' = "Some ''x''", OF ok g refl]
  show ?thesis using ok g by simp
qed

lemma flat_inj: "flat ps = flat qs \<Longrightarrow> ps = qs"
proof (induction ps arbitrary: qs)
  case Nil
  then show ?case by (cases qs) auto
next
  case (Cons x ps)
  obtain r p where x: "x = (r, p)" by (cases x)
  show ?case
  proof (cases qs)
    case Nil
    with Cons.prems x show ?thesis by simp
  next
    case (Cons y qs')
    obtain r' p' where y: "y = (r', p')" by (cases y)
    from Cons.prems x y Cons have "r = r'" "p = p'" "flat ps = flat qs'" by simp_all
    with Cons.IH [of qs'] x y Cons show ?thesis by simp
  qed
qed

lemma Relationship_push_no_reentry:
  "relationships w r = Some rel \<Longrightarrow>
   Relationship_push schema no_reentry g r p w = Inr (log_update r rel p w)"
  by (simp add: Relationship_push_def no_reentry_def log_update_def)

lemma apply_updates_no_reentry:
  "apply_updates schema no_reentry g ps w = Inr w' \<Longrightarrow>
   graphs w' = graphs w \<and> arrays w' = arrays w \<and> containers w' = containers w \<and>
   flushRelationships w' = flushRelationships w \<and> Graphs w' = Graphs w \<and>
   nextRef w' = nextRef w \<and> dicts w' = dicts w"
proof (induction ps arbitrary: w)
  case Nil
  then show ?case by simp
next
  case (Cons x ps)
  obtain r p where x: "x = (r, p)" by (cases x)
  from Cons.prems x obtain rel where rel: "relationships w r = Some rel"
    by (auto simp: Relationship_push_def split: option.splits)
  from Cons.prems x have "apply_updates schema no_reentry g ps (log_update r rel p w) = Inr w'"
    by (simp add: Relationship_push_no_reentry [OF rel])
  from Cons.IH [OF this] show ?case by (simp add: log_update_def)
qed

lemma flush_no_reentry:
  assumes wf: "wf schema w" and G: "graphs w g = Some G"
    and hm: "arrays w (hasMany (queued G)) = Some (flat hm)"
    and bt: "arrays w (belongsTo (queued G)) = Some (flat bt)"
  obtains w' where
    "flush schema no_reentry g w = Some (Inr w')"
    "update_frame (hm @ bt) (flush_begin g G w) w'"
    "graphs w' = graphs (flush_begin g G w)" "arrays w' = arrays (flush_begin g G w)"
    "containers w' = containers w" "flushRelationships w' = flushRelationships w"
    "Graphs w' = Graphs w" "dicts w' = dicts w" "wf schema w'"
    "\<forall>(r, p)\<in>set hm. \<exists>rel. relationships w r = Some rel \<and> kind rel = HasMany"
    "\<forall>(r, p)\<in>set bt. \<exists>rel. relationships w r = Some rel \<and> kind rel = BelongsTo"
proof -
  obtain hm' bt' w2 w' where *:
    "arrays w (hasMany (queued G)) = Some (flat hm')"
    "arrays w (belongsTo (queued G)) = Some (flat bt')"
    "\<forall>(r, p)\<in>set hm'. \<exists>rel. relationships w r = Some rel \<and> kind rel = HasMany"
    "\<forall>(r, p)\<in>set bt'. \<exists>rel. relationships w r = Some rel \<and> kind rel = BelongsTo"
    "apply_updates schema no_reentry g hm' (flush_begin g G w) = Inr w2"
    "apply_updates schema no_reentry g bt' w2 = Inr w'"
    "flush schema no_reentry g w = Some (Inr w')"
    "wf schema w'"
    "update_frame hm' (flush_begin g G w) w2" "update_frame bt' w2 w'"
    by (rule flush_effect [OF wf G, of no_reentry]) blast
  from *(1) hm have h: "hm' = hm" by (simp add: flat_inj)
  from *(2) bt have b: "bt' = bt" by (simp add: flat_inj)
  from apply_updates_no_reentry [OF *(5)] apply_updates_no_reentry [OF *(6)]
  have same: "graphs w' = graphs (flush_begin g G w)" "arrays w' = arrays (flush_begin g G w)"
    "containers w' = containers w" "flushRelationships w' = flushRelationships w"
    "Graphs w' = Graphs w" "dicts w' = dicts w"
    by (simp_all add: flush_begin_fields)
  have "update_frame (hm @ bt) (flush_begin g G w) w'"
    using update_frame_trans [OF *(9,10)] h b by simp
  with * same h b show ?thesis by (intro that [of w']) simp_all
qed

text \<open>
  C2. \<^verbatim>\<open>Graph.flush\<close> drains the whole queue. With the relationships updating their inverses
  directly, as the spec has it: the calls of \<^verbatim>\<open>Relationship.push\<close> that the flush makes are
  exactly the queued (relationship, payload) pairs, each once, all those of the to-many
  array (which holds to-many relationships only) before all those of the to-one array
  (which holds to-one relationships only), each in the order of its array; every
  relationship has received exactly its own queued payloads; and when flush returns both
  queue arrays of the graph are empty and the flag is clear.
\<close>

theorem flush_drains_queue:
  assumes "wf schema w" "graphs w g = Some G"
    and "arrays w (hasMany (queued G)) = Some (flat hm)"
    and "arrays w (belongsTo (queued G)) = Some (flat bt)"
  shows "\<exists>w' G'. flush schema no_reentry g w = Some (Inr w') \<and>
           applied w' = applied w @ hm @ bt \<and>
           (\<forall>(r, p)\<in>set hm. \<exists>rel. relationships w r = Some rel \<and> kind rel = HasMany) \<and>
           (\<forall>(r, p)\<in>set bt. \<exists>rel. relationships w r = Some rel \<and> kind rel = BelongsTo) \<and>
           (\<forall>r rel. relationships w r = Some rel \<longrightarrow>
              (\<exists>rel'. relationships w' r = Some rel' \<and>
                 canonicalUpdates rel' =
                   canonicalUpdates rel @ map snd (filter (\<lambda>x. fst x = r) (hm @ bt)))) \<and>
           graphs w' g = Some G' \<and> nextFlush G' = False \<and>
           arrays w' (hasMany (queued G')) = Some [] \<and>
           arrays w' (belongsTo (queued G')) = Some []"
proof -
  obtain w' where *:
    "flush schema no_reentry g w = Some (Inr w')"
    "update_frame (hm @ bt) (flush_begin g G w) w'"
    "graphs w' = graphs (flush_begin g G w)" "arrays w' = arrays (flush_begin g G w)"
    "\<forall>(r, p)\<in>set hm. \<exists>rel. relationships w r = Some rel \<and> kind rel = HasMany"
    "\<forall>(r, p)\<in>set bt. \<exists>rel. relationships w r = Some rel \<and> kind rel = BelongsTo"
    by (rule flush_no_reentry [OF assms]) blast
  let ?G' = "G\<lparr> nextFlush := False,
      queued := \<lparr> belongsTo = nextRef w, hasMany = nextRef w + 1 \<rparr> \<rparr>"
  from *(2) have ap: "applied w' = applied w @ hm @ bt"
    by (simp add: update_frame_def flush_begin_fields)
  from *(2) have logs: "\<forall>r rel. relationships w r = Some rel \<longrightarrow>
      (\<exists>rel'. relationships w' r = Some rel' \<and>
         canonicalUpdates rel' =
           canonicalUpdates rel @ map snd (filter (\<lambda>x. fst x = r) (hm @ bt)))"
    by (simp add: update_frame_def flush_begin_fields)
  have G': "graphs w' g = Some ?G'" "nextFlush ?G' = False"
    "arrays w' (hasMany (queued ?G')) = Some []"
    "arrays w' (belongsTo (queued ?G')) = Some []"
    by (simp_all add: *(3,4) flush_begin_fields)
  from *(1) ap *(5,6) logs G' show ?thesis
    by (intro exI [of _ w'] exI [of _ ?G'] conjI)
qed

lemma flush_empty:
  assumes wf: "wf schema w" and G: "graphs w g = Some G"
    and hm: "arrays w (hasMany (queued G)) = Some []"
    and bt: "arrays w (belongsTo (queued G)) = Some []"
    and flag: "nextFlush G = False"
  shows "flush schema reentry g w = Some (Inr (flush_begin g G w)) \<and>
         flush_unobservable g w (flush_begin g G w) \<and> wf schema (flush_begin g G w)"
proof -
  obtain hm' bt' w2 w' where *:
    "arrays w (hasMany (queued G)) = Some (flat hm')"
    "arrays w (belongsTo (queued G)) = Some (flat bt')"
    "apply_updates schema reentry g hm' (flush_begin g G w) = Inr w2"
    "apply_updates schema reentry g bt' w2 = Inr w'"
    "flush schema reentry g w = Some (Inr w')"
    by (rule flush_effect [OF wf G, of reentry]) blast
  from *(1) hm have "flat hm' = flat []" by simp
  then have h: "hm' = []" by (rule flat_inj)
  from *(2) bt have "flat bt' = flat []" by simp
  then have b: "bt' = []" by (rule flat_inj)
  from *(3,4) h b have "w' = flush_begin g G w" by simp
  with *(5) have fl: "flush schema reentry g w = Some (Inr (flush_begin g G w))" by simp
  from wf have bd: "bounded w" by (simp add: wf_def)
  have old: "arrays (flush_begin g G w) a = Some xs" if "arrays w a = Some xs" for a xs
  proof -
    from bd that have "a < nextRef w"
      unfolding bounded_def by (metis not_le option.distinct(1))
    with that show ?thesis by (simp add: flush_begin_fields)
  qed
  have "flush_unobservable g w (flush_begin g G w)"
    unfolding flush_unobservable_def
    using G hm bt flag old by (auto simp: flush_begin_fields)
  with fl flush_begin_wf [OF wf G] show ?thesis by simp
qed

lemma flush_unobservable_trans:
  assumes a: "flush_unobservable g w w1" and b: "flush_unobservable g w1 w2"
  shows "flush_unobservable g w w2"
proof -
  from a obtain G G1 where G: "graphs w g = Some G" "graphs w1 g = Some G1"
    "nextFlush G1 = nextFlush G" "identifiers G1 = identifiers G"
    "implicitMap G1 = implicitMap G" "storeWrapper G1 = storeWrapper G"
    "arrays w (hasMany (queued G)) = Some []" "arrays w (belongsTo (queued G)) = Some []"
    unfolding flush_unobservable_def by blast
  from b obtain G1' G2 where G2: "graphs w1 g = Some G1'" "graphs w2 g = Some G2"
    "nextFlush G2 = nextFlush G1'" "identifiers G2 = identifiers G1'"
    "implicitMap G2 = implicitMap G1'" "storeWrapper G2 = storeWrapper G1'"
    "arrays w2 (hasMany (queued G2)) = Some []" "arrays w2 (belongsTo (queued G2)) = Some []"
    unfolding flush_unobservable_def by blast
  from G(2) G2(1) have eq: "G1' = G1" by simp
  have graph: "\<exists>G G'. graphs w g = Some G \<and> graphs w2 g = Some G' \<and>
        nextFlush G' = nextFlush G \<and> identifiers G' = identifiers G \<and>
        implicitMap G' = implicitMap G \<and> storeWrapper G' = storeWrapper G \<and>
        arrays w (hasMany (queued G)) = Some [] \<and> arrays w (belongsTo (queued G)) = Some [] \<and>
        arrays w2 (hasMany (queued G')) = Some [] \<and>
        arrays w2 (belongsTo (queued G')) = Some []"
    using G G2 eq by (intro exI [of _ G] exI [of _ G2]) simp
  have others: "\<forall>g'. g' \<noteq> g \<longrightarrow> graphs w2 g' = graphs w g'"
    using a b unfolding flush_unobservable_def by simp
  have arrs: "\<forall>a xs. arrays w a = Some xs \<longrightarrow> arrays w2 a = Some xs"
    using a b unfolding flush_unobservable_def by blast
  have rest: "relationships w2 = relationships w" "applied w2 = applied w"
    "containers w2 = containers w" "dicts w2 = dicts w" "Graphs w2 = Graphs w"
    "flushRelationships w2 = flushRelationships w"
    using a b unfolding flush_unobservable_def by simp_all
  from rest others arrs graph show ?thesis
    unfolding flush_unobservable_def by (intro conjI)
qed

text \<open>
  C4. \<^verbatim>\<open>Graph.flush\<close> on an empty queue with no flush pending is idempotent: it returns,
  makes no call of \<^verbatim>\<open>Relationship.push\<close> and changes no relationship, container, map or
  scheduled task; the graph has the same fields, an empty queue and a clear flag, only in
  two new (empty) arrays. Calling it again does the same, so one call and two calls leave
  equivalent states.
\<close>

theorem flush_empty_queue_idempotent:
  assumes "wf schema w" "graphs w g = Some G"
    and "arrays w (hasMany (queued G)) = Some []"
    and "arrays w (belongsTo (queued G)) = Some []"
    and "nextFlush G = False"
  shows "\<exists>w1 w2. flush schema reentry g w = Some (Inr w1) \<and> flush_unobservable g w w1 \<and>
           flush schema reentry g w1 = Some (Inr w2) \<and> flush_unobservable g w1 w2 \<and>
           flush_unobservable g w w2"
proof -
  let ?w1 = "flush_begin g G w"
  from flush_empty [OF assms, of reentry]
  have 1: "flush schema reentry g w = Some (Inr ?w1)" "flush_unobservable g w ?w1"
    "wf schema ?w1" by simp_all
  from 1(2) obtain G1 where G1: "graphs ?w1 g = Some G1" "nextFlush G1 = nextFlush G"
    "arrays ?w1 (hasMany (queued G1)) = Some []"
    "arrays ?w1 (belongsTo (queued G1)) = Some []"
    unfolding flush_unobservable_def using assms(2) by auto
  let ?w2 = "flush_begin g G1 ?w1"
  from flush_empty [OF 1(3) G1(1,3,4), of reentry] G1(2) assms(5)
  have 2: "flush schema reentry g ?w1 = Some (Inr ?w2)" "flush_unobservable g ?w1 ?w2"
    by simp_all
  have "flush_unobservable g w ?w2"
    by (rule flush_unobservable_trans [OF 1(2) 2(2)])
  with 1 2 show ?thesis by blast
qed

lemma two_stores_graph:
  "graphs two_stores 0 = Some \<lparr> queued = \<lparr> belongsTo = 1, hasMany = 2 \<rparr>,
      nextFlush = False, identifiers = Map.empty, implicitMap = Map.empty, storeWrapper = 0 \<rparr>"
  by (simp add: two_stores_eval)

lemma two_stores_open: "currentInstance two_stores"
  by (simp add: two_stores_eval)

lemma pushed_thrice_eq:
  "Graph_push_all example_schema no_reentry 0 three_pushes two_stores =
     Some (push_all example_schema 0 three_pushes two_stores)"
  "pushed_thrice =
     (case push_all example_schema 0 three_pushes two_stores of
        Inr w \<Rightarrow> w | Inl e \<Rightarrow> two_stores)"
  unfolding pushed_thrice_def
    Graph_push_all_open [OF two_stores_wf two_stores_graph two_stores_open]
  by (simp_all split: sum.splits)

lemma pushed_thrice_fields:
  "push_all example_schema 0 three_pushes two_stores = Inr pushed_thrice"
  "graphs pushed_thrice 0 = Some \<lparr> queued = \<lparr> belongsTo = 1, hasMany = 2 \<rparr>, nextFlush = True,
      identifiers = [7 \<mapsto> 6], implicitMap = Map.empty, storeWrapper = 0 \<rparr>"
  "arrays pushed_thrice 2 = Some (flat [(7, 1), (7, 3)])"
  "arrays pushed_thrice 1 = Some (flat [(8, 2)])"
  "relationships pushed_thrice 7 = Some \<lparr> kind = HasMany, rel_identifier = 7,
      rel_key = ''comments'', canonicalUpdates = [] \<rparr>"
  "relationships pushed_thrice 8 = Some \<lparr> kind = BelongsTo, rel_identifier = 7,
      rel_key = ''author'', canonicalUpdates = [] \<rparr>"
  "applied pushed_thrice = []"
  "flushRelationships pushed_thrice = [0]"
  by (simp_all add: pushed_thrice_eq(2) three_pushes_def two_stores_eval Graph_push_in_loop_def
      Graph_get_def Relationships_get_def example_schema_def schedule_def Let_def)

lemma pushed_thrice_wf: "wf example_schema pushed_thrice"
  using push_all_effect [OF two_stores_wf two_stores_graph, of example_schema three_pushes]
  by (auto simp: pushed_thrice_fields(1))

theorem flush_drains_queue_witness:
  "wf example_schema pushed_thrice \<and>
   (\<exists>G. graphs pushed_thrice 0 = Some G \<and>
      arrays pushed_thrice (hasMany (queued G)) = Some (flat [(7, 1), (7, 3)]) \<and>
      arrays pushed_thrice (belongsTo (queued G)) = Some (flat [(8, 2)])) \<and>
   (\<exists>w' G' rel7 rel8.
      flush example_schema no_reentry 0 pushed_thrice = Some (Inr w') \<and>
      applied w' = [(7, 1), (7, 3), (8, 2)] \<and>
      relationships w' 7 = Some rel7 \<and> canonicalUpdates rel7 = [1, 3] \<and>
      relationships w' 8 = Some rel8 \<and> canonicalUpdates rel8 = [2] \<and>
      graphs w' 0 = Some G' \<and> nextFlush G' = False \<and>
      arrays w' (hasMany (queued G')) = Some [] \<and>
      arrays w' (belongsTo (queued G')) = Some [])"
proof -
  let ?G = "\<lparr> queued = \<lparr> belongsTo = 1, hasMany = 2 \<rparr>, nextFlush = True,
      identifiers = [7 \<mapsto> 6], implicitMap = Map.empty, storeWrapper = 0 \<rparr> :: nat Graph"
  have hm: "arrays pushed_thrice (hasMany (queued ?G)) = Some (flat [(7, 1), (7, 3)])"
    and bt: "arrays pushed_thrice (belongsTo (queued ?G)) = Some (flat [(8, 2)])"
    using pushed_thrice_fields(3,4) by simp_all
  from flush_drains_queue [OF pushed_thrice_wf pushed_thrice_fields(2) hm bt]
  obtain w' G' where *:
    "flush example_schema no_reentry 0 pushed_thrice = Some (Inr w')"
    "applied w' = applied pushed_thrice @ [(7, 1), (7, 3)] @ [(8, 2)]"
    "\<forall>r rel. relationships pushed_thrice r = Some rel \<longrightarrow>
       (\<exists>rel'. relationships w' r = Some rel' \<and>
          canonicalUpdates rel' =
            canonicalUpdates rel @ map snd (filter (\<lambda>x. fst x = r) ([(7, 1), (7, 3)] @ [(8, 2)])))"
    "graphs w' 0 = Some G'" "nextFlush G' = False"
    "arrays w' (hasMany (queued G')) = Some []"
    "arrays w' (belongsTo (queued G')) = Some []"
    by blast
  from *(3) pushed_thrice_fields(5) obtain rel7 where
    r7: "relationships w' 7 = Some rel7" "canonicalUpdates rel7 = [1, 3]"
    by fastforce
  from *(3) pushed_thrice_fields(6) obtain rel8 where
    r8: "relationships w' 8 = Some rel8" "canonicalUpdates rel8 = [2]"
    by fastforce
  from *(2) have ap: "applied w' = [(7, 1), (7, 3), (8, 2)]"
    using pushed_thrice_fields(7) by simp
  have pre: "\<exists>G. graphs pushed_thrice 0 = Some G \<and>
      arrays pushed_thrice (hasMany (queued G)) = Some (flat [(7, 1), (7, 3)]) \<and>
      arrays pushed_thrice (belongsTo (queued G)) = Some (flat [(8, 2)])"
    using pushed_thrice_fields(2) hm bt by simp
  from *(1) ap r7 r8 *(4,5,6,7)
  have post: "\<exists>w' G' rel7 rel8.
      flush example_schema no_reentry 0 pushed_thrice = Some (Inr w') \<and>
      applied w' = [(7, 1), (7, 3), (8, 2)] \<and>
      relationships w' 7 = Some rel7 \<and> canonicalUpdates rel7 = [1, 3] \<and>
      relationships w' 8 = Some rel8 \<and> canonicalUpdates rel8 = [2] \<and>
      graphs w' 0 = Some G' \<and> nextFlush G' = False \<and>
      arrays w' (hasMany (queued G')) = Some [] \<and>
      arrays w' (belongsTo (queued G')) = Some []"
    by blast
  from pushed_thrice_wf pre post show ?thesis by (intro conjI)
qed

theorem flush_empty_queue_idempotent_witness:
  "wf example_schema one_store \<and>
   (\<exists>G. graphs one_store 0 = Some G \<and> arrays one_store (hasMany (queued G)) = Some [] \<and>
      arrays one_store (belongsTo (queued G)) = Some [] \<and> nextFlush G = False) \<and>
   (\<exists>w1 w2. flush example_schema no_reentry 0 one_store = Some (Inr w1) \<and>
      flush_unobservable 0 one_store w1 \<and>
      flush example_schema no_reentry 0 w1 = Some (Inr w2) \<and>
      flush_unobservable 0 w1 w2 \<and> flush_unobservable 0 one_store w2)"
proof -
  let ?G = "\<lparr> queued = \<lparr> belongsTo = 1, hasMany = 2 \<rparr>, nextFlush = False,
      identifiers = Map.empty, implicitMap = Map.empty, storeWrapper = 0 \<rparr> :: nat Graph"
  have arrs: "arrays one_store (hasMany (queued ?G)) = Some []"
    "arrays one_store (belongsTo (queued ?G)) = Some []"
    and flag: "nextFlush ?G = False"
    by (simp_all add: one_store_def graphFor_def new_Graph_def init_def)
  have pre: "\<exists>G. graphs one_store 0 = Some G \<and> arrays one_store (hasMany (queued G)) = Some [] \<and>
      arrays one_store (belongsTo (queued G)) = Some [] \<and> nextFlush G = False"
    using one_store_graph arrs by simp
  from flush_empty_queue_idempotent [OF one_store_wf one_store_graph arrs flag,
      of example_schema no_reentry]
  have post: "\<exists>w1 w2. flush example_schema no_reentry 0 one_store = Some (Inr w1) \<and>
      flush_unobservable 0 one_store w1 \<and>
      flush example_schema no_reentry 0 w1 = Some (Inr w2) \<and>
      flush_unobservable 0 w1 w2 \<and> flush_unobservable 0 one_store w2"
    by simp
  from one_store_wf pre post show ?thesis by (intro conjI)
qed

lemma of_kind_simps [simp]:
  "of_kind schema k [] = []"
  "of_kind schema k ((i, n, p) # rest) =
     (if schema i n = k then (i, n, p) # of_kind schema k rest else of_kind schema k rest)"
  "of_kind schema k (xs @ ys) = of_kind schema k xs @ of_kind schema k ys"
  by (simp_all add: of_kind_def)

lemma set_of_kind: "set (of_kind schema k pushes) \<subseteq> set pushes"
  by (auto simp: of_kind_def)

lemma resolve_append: "resolve w g (xs @ ys) = resolve w g xs @ resolve w g ys"
  by (induction xs) (auto split: option.splits)

lemma resolve_extends:
  assumes "extends w w'" "\<forall>(i, n, p) \<in> set xs. relationship_of w g i n \<noteq> None"
  shows "resolve w' g xs = resolve w g xs"
  using assms(2)
proof (induction xs)
  case Nil
  then show ?case by simp
next
  case (Cons x xs)
  obtain i n p where x: "x = (i, n, p)" by (cases x)
  with Cons.prems obtain r where r: "relationship_of w g i n = Some r" by auto
  from extends_relationship_of [OF assms(1) r] have "relationship_of w' g i n = Some r" .
  with Cons r x show ?case by simp
qed

lemma resolved_extends:
  assumes "extends w w'" "\<forall>(i, n, p) \<in> set xs. relationship_of w g i n \<noteq> None"
  shows "\<forall>(i, n, p) \<in> set xs. relationship_of w' g i n \<noteq> None"
proof
  fix x assume "x \<in> set xs"
  obtain i n p where x: "x = (i, n, p)" by (cases x)
  with \<open>x \<in> set xs\<close> assms(2) obtain r where "relationship_of w g i n = Some r" by auto
  from extends_relationship_of [OF assms(1) this] x
  show "case x of (i, n, p) \<Rightarrow> relationship_of w' g i n \<noteq> None" by simp
qed

lemma queue_effect_refl: "queue_effect schema g [] w w"
  by (simp add: queue_effect_def)

lemma queue_effect_trans:
  assumes a: "queue_effect schema g A w w1" and b: "queue_effect schema g B w1 w2"
    and e: "extends w1 w2"
  shows "queue_effect schema g (A @ B) w w2"
proof -
  from a have resA: "\<forall>(i, n, p) \<in> set A. relationship_of w1 g i n \<noteq> None"
    by (simp add: queue_effect_def)
  from b have resB: "\<forall>(i, n, p) \<in> set B. relationship_of w2 g i n \<noteq> None"
    by (simp add: queue_effect_def)
  have res: "\<forall>(i, n, p) \<in> set (A @ B). relationship_of w2 g i n \<noteq> None"
    using resolved_extends [OF e resA] resB by auto
  have graph: "\<exists>G'. graphs w2 g = Some G' \<and> queued G' = queued G \<and>
      nextFlush G' = (nextFlush G \<or> A @ B \<noteq> []) \<and>
      (\<forall>k ps. arrays w (queued_at k (queued G)) = Some (flat ps) \<longrightarrow>
         arrays w2 (queued_at k (queued G)) =
           Some (flat (ps @ resolve w2 g (of_kind schema k (A @ B))))) \<and>
      flushRelationships w2 =
        flushRelationships w @ (if \<not> nextFlush G \<and> A @ B \<noteq> [] then [g] else [])"
    if G: "graphs w g = Some G" for G
  proof -
    from a G obtain G1 where G1: "graphs w1 g = Some G1" "queued G1 = queued G"
      "nextFlush G1 = (nextFlush G \<or> A \<noteq> [])"
      "\<forall>k ps. arrays w (queued_at k (queued G)) = Some (flat ps) \<longrightarrow>
         arrays w1 (queued_at k (queued G)) = Some (flat (ps @ resolve w1 g (of_kind schema k A)))"
      "flushRelationships w1 =
         flushRelationships w @ (if \<not> nextFlush G \<and> A \<noteq> [] then [g] else [])"
      unfolding queue_effect_def by blast
    from b G1(1) obtain G2 where G2: "graphs w2 g = Some G2" "queued G2 = queued G1"
      "nextFlush G2 = (nextFlush G1 \<or> B \<noteq> [])"
      "\<forall>k ps. arrays w1 (queued_at k (queued G1)) = Some (flat ps) \<longrightarrow>
         arrays w2 (queued_at k (queued G1)) = Some (flat (ps @ resolve w2 g (of_kind schema k B)))"
      "flushRelationships w2 =
         flushRelationships w1 @ (if \<not> nextFlush G1 \<and> B \<noteq> [] then [g] else [])"
      unfolding queue_effect_def by blast
    have arr: "arrays w2 (queued_at k (queued G)) =
        Some (flat (ps @ resolve w2 g (of_kind schema k (A @ B))))"
      if ps: "arrays w (queued_at k (queued G)) = Some (flat ps)" for k ps
    proof -
      from G1(4) ps have "arrays w1 (queued_at k (queued G)) =
          Some (flat (ps @ resolve w1 g (of_kind schema k A)))" by blast
      with G2(4) G1(2) have "arrays w2 (queued_at k (queued G)) =
          Some (flat ((ps @ resolve w1 g (of_kind schema k A)) @
                       resolve w2 g (of_kind schema k B)))"
        by simp
      moreover have "\<forall>(i, n, p) \<in> set (of_kind schema k A). relationship_of w1 g i n \<noteq> None"
        using resA set_of_kind [of schema k A] by blast
      from resolve_extends [OF e this]
      have "resolve w2 g (of_kind schema k A) = resolve w1 g (of_kind schema k A)" .
      ultimately show ?thesis by (simp add: resolve_append)
    qed
    have fl: "flushRelationships w2 =
        flushRelationships w @ (if \<not> nextFlush G \<and> A @ B \<noteq> [] then [g] else [])"
      using G1(3,5) G2(5) by auto
    from G2(1,2,3) G1(2,3) arr fl show ?thesis
      by (intro exI [of _ G2]) auto
  qed
  from res graph show ?thesis
    unfolding queue_effect_def by blast
qed

lemma Graph_push_in_loop_queue_effect:
  assumes wf: "wf schema w" and push: "Graph_push_in_loop schema g i n p w = Inr w'"
  shows "queue_effect schema g [(i, n, p)] w w'"
proof -
  from push obtain G where G: "graphs w g = Some G"
    by (auto simp: Graph_push_in_loop_def Graph_get_def split: option.splits)
  obtain c r w2 G2 C2 rel ps where *:
    "Graph_push_in_loop schema g i n p w =
       Inr (enqueue g G2 (queued_at (schema i n) (queued G)) (flat ps) r p w2)"
    "lookup_frame w w2"
    "graphs w2 g = Some G2" "identifiers G2 i = Some c" "queued G2 = queued G"
    "nextFlush G2 = nextFlush G"
    "containers w2 c = Some C2" "initializedRelationships C2 n = Some r"
    "arrays w (queued_at (schema i n) (queued G)) = Some (flat ps)"
    by (rule Graph_push_in_loop_effect [OF wf G, of i n p]) blast
  let ?a = "queued_at (schema i n) (queued G)"
  from *(1) push have w': "w' = enqueue g G2 ?a (flat ps) r p w2" by simp
  have rof: "relationship_of w' g i n = Some r"
    using * by (simp add: w' relationship_of_def enqueue_fields)
  from wf have d: "queues_distinct w" by (simp add: wf_def)
  have arr: "arrays w' (queued_at k (queued G)) =
      Some (flat (qs @ resolve w' g (of_kind schema k [(i, n, p)])))"
    if qs: "arrays w (queued_at k (queued G)) = Some (flat qs)" for k qs
  proof (cases "schema i n = k")
    case True
    with qs *(9) have "qs = ps" by (simp add: flat_inj)
    with True rof show ?thesis
      by (simp add: w' enqueue_fields flat_append)
  next
    case False
    with d G have "queued_at k (queued G) \<noteq> ?a"
      unfolding queues_distinct_def by metis
    with False qs show ?thesis
      by (simp add: w' enqueue_fields lookup_frame_arrays [OF *(2)])
  qed
  let ?G' = "G2\<lparr> nextFlush := True \<rparr>"
  from *(2) have fr2: "flushRelationships w2 = flushRelationships w"
    by (simp add: lookup_frame_def)
  have g1: "graphs w' g = Some ?G'" by (simp add: w' enqueue_fields)
  have g2: "queued ?G' = queued G" by (simp add: *(5))
  have g3: "nextFlush ?G' = (nextFlush G \<or> [(i, n, p)] \<noteq> [])" by simp
  have g4: "\<forall>k ps. arrays w (queued_at k (queued G)) = Some (flat ps) \<longrightarrow>
         arrays w' (queued_at k (queued G)) =
           Some (flat (ps @ resolve w' g (of_kind schema k [(i, n, p)])))"
    using arr by blast
  have g5: "flushRelationships w' =
        flushRelationships w @ (if \<not> nextFlush G \<and> [(i, n, p)] \<noteq> [] then [g] else [])"
    by (simp add: w' enqueue_fields fr2 *(6))
  have graph: "\<exists>G'. graphs w' g = Some G' \<and> queued G' = queued G \<and>
      nextFlush G' = (nextFlush G \<or> [(i, n, p)] \<noteq> []) \<and>
      (\<forall>k ps. arrays w (queued_at k (queued G)) = Some (flat ps) \<longrightarrow>
         arrays w' (queued_at k (queued G)) =
           Some (flat (ps @ resolve w' g (of_kind schema k [(i, n, p)])))) \<and>
      flushRelationships w' =
        flushRelationships w @ (if \<not> nextFlush G \<and> [(i, n, p)] \<noteq> [] then [g] else [])"
    by (intro exI [of _ ?G'] conjI g1 g2 g3 g4 g5)
  show ?thesis
    unfolding queue_effect_def
  proof (intro conjI allI impI)
    show "\<forall>(i, n, p)\<in>set [(i, n, p)]. relationship_of w' g i n \<noteq> None"
      using rof by simp
  next
    fix G0 assume "graphs w g = Some G0"
    with G have "G0 = G" by simp
    with graph show "\<exists>G'. graphs w' g = Some G' \<and> queued G' = queued G0 \<and>
      nextFlush G' = (nextFlush G0 \<or> [(i, n, p)] \<noteq> []) \<and>
      (\<forall>k ps. arrays w (queued_at k (queued G0)) = Some (flat ps) \<longrightarrow>
         arrays w' (queued_at k (queued G0)) =
           Some (flat (ps @ resolve w' g (of_kind schema k [(i, n, p)])))) \<and>
      flushRelationships w' =
        flushRelationships w @ (if \<not> nextFlush G0 \<and> [(i, n, p)] \<noteq> [] then [g] else [])"
      by simp
  qed
qed

lemma push_all_queue_effect:
  assumes "wf schema w" "graphs w g = Some G" "push_all schema g pushes w = Inr w'"
  shows "queue_effect schema g pushes w w'"
  using assms
proof (induction pushes arbitrary: w G)
  case Nil
  then show ?case by (simp add: queue_effect_refl)
next
  case (Cons x pushes)
  obtain i n p where x: "x = (i, n, p)" by (cases x)
  from Cons.prems(3) x obtain w1 where w1: "Graph_push_in_loop schema g i n p w = Inr w1"
    "push_all schema g pushes w1 = Inr w'"
    by (auto split: sum.splits)
  from Graph_push_in_loop_wf [OF Cons.prems(1) w1(1)] have wf1: "wf schema w1" and e1: "extends w w1"
    by simp_all
  from extends_graph [OF e1 Cons.prems(2)] obtain G1 where G1: "graphs w1 g = Some G1" ..
  from push_all_effect [OF wf1 G1, of pushes] w1(2) have e2: "extends w1 w'" by simp
  have "queue_effect schema g ([(i, n, p)] @ pushes) w w'"
    by (rule queue_effect_trans [OF Graph_push_in_loop_queue_effect [OF Cons.prems(1) w1(1)]
          Cons.IH [OF wf1 G1 w1(2)] e2])
  with x show ?case by simp
qed

lemma log_update_queue_effect: "queue_effect schema g [] w (log_update r rel p w)"
  by (simp add: queue_effect_def log_update_def)

lemma reentrant_simps [simp]:
  "reentrant reentry [] = []"
  "reentrant reentry ((r, p) # ps) = reentry r p @ reentrant reentry ps"
  "reentrant reentry (ps @ qs) = reentrant reentry ps @ reentrant reentry qs"
  by (simp_all add: reentrant_def)

lemma Relationship_push_queue_effect:
  assumes wf: "wf schema w" and G: "graphs w g = Some G"
    and push: "Relationship_push schema reentry g r p w = Inr w'"
  shows "queue_effect schema g (reentry r p) w w'"
proof -
  from push obtain rel where rel: "relationships w r = Some rel"
    by (auto simp: Relationship_push_def split: option.splits)
  let ?w0 = "log_update r rel p w"
  from push rel have pa: "push_all schema g (reentry r p) ?w0 = Inr w'"
    by (simp add: Relationship_push_def log_update_def)
  have wf0: "wf schema ?w0" by (rule log_update_wf [OF wf rel])
  have G0: "graphs ?w0 g = Some G" using G by (simp add: log_update_def)
  from push_all_effect [OF wf0 G0, of "reentry r p"] pa have e: "extends ?w0 w'" by simp
  have "queue_effect schema g ([] @ reentry r p) w w'"
    by (rule queue_effect_trans [OF log_update_queue_effect
          push_all_queue_effect [OF wf0 G0 pa] e])
  then show ?thesis by simp
qed

lemma apply_updates_wf:
  assumes "wf schema w" "graphs w g = Some G"
    and "apply_updates schema reentry g ps w = Inr w'"
  shows "wf schema w' \<and> extends w w' \<and> update_frame ps w w'"
  using assms
proof (induction ps arbitrary: w G)
  case Nil
  then show ?case
    by (simp add: extends_refl push_frame_update_frame [OF push_frame_refl])
next
  case (Cons x ps)
  obtain r p where x: "x = (r, p)" by (cases x)
  from Cons.prems(3) x obtain w1 where w1: "Relationship_push schema reentry g r p w = Inr w1"
    "apply_updates schema reentry g ps w1 = Inr w'"
    by (auto split: sum.splits)
  from w1(1) obtain rel where rel: "relationships w r = Some rel"
    by (auto simp: Relationship_push_def split: option.splits)
  from Relationship_push_effect [OF Cons.prems(1,2) rel, of reentry p] w1(1)
  have wf1: "wf schema w1" and e1: "extends w w1" and u1: "update_frame [(r, p)] w w1"
    by simp_all
  from extends_graph [OF e1 Cons.prems(2)] obtain G1 where G1: "graphs w1 g = Some G1" ..
  from Cons.IH [OF wf1 G1 w1(2)] have wf': "wf schema w'" and e2: "extends w1 w'"
    and u2: "update_frame ps w1 w'" by simp_all
  from update_frame_trans [OF u1 u2] x have "update_frame (x # ps) w w'" by simp
  with wf' extends_trans [OF e1 e2] show ?case by simp
qed

lemma apply_updates_queue_effect:
  assumes "wf schema w" "graphs w g = Some G"
    and "apply_updates schema reentry g ps w = Inr w'"
  shows "queue_effect schema g (reentrant reentry ps) w w'"
  using assms
proof (induction ps arbitrary: w G)
  case Nil
  then show ?case by (simp add: queue_effect_refl)
next
  case (Cons x ps)
  obtain r p where x: "x = (r, p)" by (cases x)
  from Cons.prems(3) x obtain w1 where w1: "Relationship_push schema reentry g r p w = Inr w1"
    "apply_updates schema reentry g ps w1 = Inr w'"
    by (auto split: sum.splits)
  from w1(1) obtain rel where rel: "relationships w r = Some rel"
    by (auto simp: Relationship_push_def split: option.splits)
  from Relationship_push_effect [OF Cons.prems(1,2) rel, of reentry p] w1(1)
  have wf1: "wf schema w1" and e1: "extends w w1" by simp_all
  from extends_graph [OF e1 Cons.prems(2)] obtain G1 where G1: "graphs w1 g = Some G1" ..
  from apply_updates_wf [OF wf1 G1 w1(2)] have e2: "extends w1 w'" by simp
  have "queue_effect schema g (reentry r p @ reentrant reentry ps) w w'"
    by (rule queue_effect_trans [OF Relationship_push_queue_effect [OF Cons.prems(1,2) w1(1)]
          Cons.IH [OF wf1 G1 w1(2)] e2])
  with x show ?case by simp
qed

lemma flush_begin_graph:
  "graphs (flush_begin g G w) g =
     Some (G\<lparr> nextFlush := False,
             queued := \<lparr> belongsTo = nextRef w, hasMany = nextRef w + 1 \<rparr> \<rparr>)"
  by (simp add: flush_begin_fields)

text \<open>
  C8. \<^verbatim>\<open>Graph.flush\<close> clears the flag and installs two new empty arrays before it applies
  anything, so a \<^verbatim>\<open>Graph.push\<close> made by a relationship while the flush is draining goes to a
  new batch. For any behaviour of the relationships: the flush returns; the two arrays it
  drains are never appended to and exactly their entries are applied; the graph's queue
  arrays afterwards are new objects, distinct from the drained ones, and hold exactly the
  pushes made during the flush, each resolved to its relationship, in order, none dropped;
  and the flag is set and one new flush is scheduled exactly when there was such a push.
\<close>

theorem flush_reentrant_push_new_batch:
  assumes "wf schema w" "graphs w g = Some G"
    and "arrays w (hasMany (queued G)) = Some (flat hm)"
    and "arrays w (belongsTo (queued G)) = Some (flat bt)"
  shows "\<exists>w' G'. flush schema reentry g w = Some (Inr w') \<and> graphs w' g = Some G' \<and>
           arrays w' (hasMany (queued G)) = Some (flat hm) \<and>
           arrays w' (belongsTo (queued G)) = Some (flat bt) \<and>
           applied w' = applied w @ hm @ bt \<and>
           (\<forall>k. arrays w (queued_at k (queued G')) = None \<and>
                queued_at k (queued G') \<noteq> hasMany (queued G) \<and>
                queued_at k (queued G') \<noteq> belongsTo (queued G) \<and>
                arrays w' (queued_at k (queued G')) =
                  Some (flat (resolve w' g (of_kind schema k (reentrant reentry (hm @ bt)))))) \<and>
           (\<forall>(i, n, p) \<in> set (reentrant reentry (hm @ bt)). relationship_of w' g i n \<noteq> None) \<and>
           nextFlush G' = (reentrant reentry (hm @ bt) \<noteq> []) \<and>
           flushRelationships w' =
             flushRelationships w @ (if reentrant reentry (hm @ bt) \<noteq> [] then [g] else [])"
proof -
  let ?w1 = "flush_begin g G w"
  let ?G1 = "G\<lparr> nextFlush := False,
      queued := \<lparr> belongsTo = nextRef w, hasMany = nextRef w + 1 \<rparr> \<rparr>"
  let ?R = "reentrant reentry (hm @ bt)"
  obtain hm' bt' w2 w' where *:
    "arrays w (hasMany (queued G)) = Some (flat hm')"
    "arrays w (belongsTo (queued G)) = Some (flat bt')"
    "apply_updates schema reentry g hm' ?w1 = Inr w2"
    "apply_updates schema reentry g bt' w2 = Inr w'"
    "flush schema reentry g w = Some (Inr w')"
    "wf schema w2"
    "update_frame hm' ?w1 w2" "update_frame bt' w2 w'"
    by (rule flush_effect [OF assms(1,2), of reentry]) blast
  from *(1) assms(3) have h: "hm' = hm" by (simp add: flat_inj)
  from *(2) assms(4) have b: "bt' = bt" by (simp add: flat_inj)
  have wf1: "wf schema ?w1" by (rule flush_begin_wf [OF assms(1,2)])
  have G1: "graphs ?w1 g = Some ?G1" by (rule flush_begin_graph)
  from apply_updates_wf [OF wf1 G1 *(3)] have e2: "extends ?w1 w2" by simp
  from extends_graph [OF e2 G1] obtain G2 where G2: "graphs w2 g = Some G2" ..
  from apply_updates_wf [OF *(6) G2 *(4)] have e3: "extends w2 w'" by simp
  have qe: "queue_effect schema g ?R ?w1 w'"
    using queue_effect_trans [OF apply_updates_queue_effect [OF wf1 G1 *(3)]
        apply_updates_queue_effect [OF *(6) G2 *(4)] e3] h b
    by simp
  have uf: "update_frame (hm @ bt) ?w1 w'"
    using update_frame_trans [OF *(7,8)] h b by simp
  from qe G1 obtain G' where G': "graphs w' g = Some G'" "queued G' = queued ?G1"
    "nextFlush G' = (nextFlush ?G1 \<or> ?R \<noteq> [])"
    "\<forall>k ps. arrays ?w1 (queued_at k (queued ?G1)) = Some (flat ps) \<longrightarrow>
       arrays w' (queued_at k (queued ?G1)) =
         Some (flat (ps @ resolve w' g (of_kind schema k ?R)))"
    "flushRelationships w' =
       flushRelationships ?w1 @ (if \<not> nextFlush ?G1 \<and> ?R \<noteq> [] then [g] else [])"
    unfolding queue_effect_def by blast
  from qe have res: "\<forall>(i, n, p) \<in> set ?R. relationship_of w' g i n \<noteq> None"
    unfolding queue_effect_def by blast
  from assms(1) have bd: "bounded w" and q: "queues_ok w" by (simp_all add: wf_def)
  have old_lt: "queued_at k (queued G) < nextRef w" for k
    by (rule queue_array_bounded [OF bd q assms(2)])
  have new_at: "queued_at k (queued G') = nextRef w + (case k of BelongsTo \<Rightarrow> 0 | HasMany \<Rightarrow> 1)"
    for k
    by (cases k) (simp_all add: G'(2))
  have new_empty: "arrays ?w1 (queued_at k (queued ?G1)) = Some (flat [])" for k
    by (cases k) (simp_all add: flush_begin_fields)
  have fresh: "arrays w (queued_at k (queued G')) = None \<and>
      queued_at k (queued G') \<noteq> hasMany (queued G) \<and>
      queued_at k (queued G') \<noteq> belongsTo (queued G) \<and>
      arrays w' (queued_at k (queued G')) = Some (flat (resolve w' g (of_kind schema k ?R)))"
    for k
  proof -
    from bd have "arrays w (queued_at k (queued G')) = None"
      unfolding bounded_def new_at by (cases k) simp_all
    moreover from old_lt [of HasMany] old_lt [of BelongsTo]
    have "queued_at k (queued G') \<noteq> hasMany (queued G)"
      "queued_at k (queued G') \<noteq> belongsTo (queued G)"
      unfolding new_at by (cases k; simp)+
    moreover from G'(4) new_empty [of k]
    have "arrays w' (queued_at k (queued G')) = Some (flat (resolve w' g (of_kind schema k ?R)))"
      unfolding G'(2) by fastforce
    ultimately show ?thesis by simp
  qed
  have old: "arrays w' (queued_at k (queued G)) = arrays w (queued_at k (queued G))" for k
    using update_frame_arrays [OF uf flush_begin_detached [OF assms(1,2), of k]]
      flush_begin_arrays [OF bd q assms(2), of g G k]
    by simp
  from old [of HasMany] old [of BelongsTo] assms(3,4)
  have olds: "arrays w' (hasMany (queued G)) = Some (flat hm)"
    "arrays w' (belongsTo (queued G)) = Some (flat bt)" by simp_all
  from uf have ap: "applied w' = applied w @ hm @ bt"
    by (simp add: update_frame_def flush_begin_fields)
  from G'(3) have flag: "nextFlush G' = (?R \<noteq> [])" by simp
  from G'(5) have fr: "flushRelationships w' =
      flushRelationships w @ (if ?R \<noteq> [] then [g] else [])"
    by (simp add: flush_begin_fields)
  from fresh have fresh': "\<forall>k. arrays w (queued_at k (queued G')) = None \<and>
      queued_at k (queued G') \<noteq> hasMany (queued G) \<and>
      queued_at k (queued G') \<noteq> belongsTo (queued G) \<and>
      arrays w' (queued_at k (queued G')) = Some (flat (resolve w' g (of_kind schema k ?R)))"
    by blast
  show ?thesis
    by (intro exI [of _ w'] exI [of _ G'] conjI *(5) G'(1) olds ap fresh' res flag fr)
qed

lemma flush_taken_wf: "wf example_schema flush_taken"
proof -
  have "wf example_schema flush_taken = wf example_schema pushed_thrice"
    by (rule wf_cong) (simp_all add: flush_taken_def)
  with pushed_thrice_wf show ?thesis by simp
qed

lemma flush_taken_fields:
  "graphs flush_taken 0 = Some \<lparr> queued = \<lparr> belongsTo = 1, hasMany = 2 \<rparr>, nextFlush = True,
      identifiers = [7 \<mapsto> 6], implicitMap = Map.empty, storeWrapper = 0 \<rparr>"
  "arrays flush_taken 2 = Some (flat [(7, 1), (7, 3)])"
  "arrays flush_taken 1 = Some (flat [(8, 2)])"
  "applied flush_taken = []"
  "flushRelationships flush_taken = []"
  using pushed_thrice_fields by (simp_all add: flush_taken_def)

theorem flush_reentrant_push_new_batch_witness:
  "wf example_schema flush_taken \<and>
   (\<exists>G. graphs flush_taken 0 = Some G \<and>
      arrays flush_taken (hasMany (queued G)) = Some (flat [(7, 1), (7, 3)]) \<and>
      arrays flush_taken (belongsTo (queued G)) = Some (flat [(8, 2)])) \<and>
   reentrant repush ([(7, 1), (7, 3)] @ [(8, 2)]) = [(9, ''author'', 5)] \<and>
   (\<exists>w' G' r.
      flush example_schema repush 0 flush_taken = Some (Inr w') \<and> graphs w' 0 = Some G' \<and>
      arrays w' 2 = Some (flat [(7, 1), (7, 3)]) \<and> arrays w' 1 = Some (flat [(8, 2)]) \<and>
      applied w' = [(7, 1), (7, 3), (8, 2)] \<and>
      relationship_of w' 0 9 ''author'' = Some r \<and>
      arrays w' (belongsTo (queued G')) = Some (flat [(r, 5)]) \<and>
      arrays w' (hasMany (queued G')) = Some [] \<and>
      belongsTo (queued G') \<noteq> 1 \<and> hasMany (queued G') \<noteq> 2 \<and>
      nextFlush G' \<and> flushRelationships w' = [0])"
proof -
  let ?G = "\<lparr> queued = \<lparr> belongsTo = 1, hasMany = 2 \<rparr>, nextFlush = True,
      identifiers = [7 \<mapsto> 6], implicitMap = Map.empty, storeWrapper = 0 \<rparr> :: nat Graph"
  have hm: "arrays flush_taken (hasMany (queued ?G)) = Some (flat [(7, 1), (7, 3)])"
    and bt: "arrays flush_taken (belongsTo (queued ?G)) = Some (flat [(8, 2)])"
    using flush_taken_fields(2,3) by simp_all
  have R: "reentrant repush ([(7, 1), (7, 3)] @ [(8, 2)]) = [(9, ''author'', 5)]"
    by (simp add: repush_def)
  from flush_reentrant_push_new_batch [OF flush_taken_wf flush_taken_fields(1) hm bt, of repush]
  obtain w' G' where *:
    "flush example_schema repush 0 flush_taken = Some (Inr w')" "graphs w' 0 = Some G'"
    "arrays w' (hasMany (queued ?G)) = Some (flat [(7, 1), (7, 3)])"
    "arrays w' (belongsTo (queued ?G)) = Some (flat [(8, 2)])"
    "applied w' = applied flush_taken @ [(7, 1), (7, 3)] @ [(8, 2)]"
    "\<forall>k. arrays flush_taken (queued_at k (queued G')) = None \<and>
         queued_at k (queued G') \<noteq> hasMany (queued ?G) \<and>
         queued_at k (queued G') \<noteq> belongsTo (queued ?G) \<and>
         arrays w' (queued_at k (queued G')) =
           Some (flat (resolve w' 0 (of_kind example_schema k
             (reentrant repush ([(7, 1), (7, 3)] @ [(8, 2)])))))"
    "\<forall>(i, n, p) \<in> set (reentrant repush ([(7, 1), (7, 3)] @ [(8, 2)])).
        relationship_of w' 0 i n \<noteq> None"
    "nextFlush G' = (reentrant repush ([(7, 1), (7, 3)] @ [(8, 2)]) \<noteq> [])"
    "flushRelationships w' = flushRelationships flush_taken @
       (if reentrant repush ([(7, 1), (7, 3)] @ [(8, 2)]) \<noteq> [] then [0] else [])"
    by blast
  from *(7) obtain r where r: "relationship_of w' 0 9 ''author'' = Some r"
    unfolding R by auto
  from *(6) [rule_format, of BelongsTo] r
  have nb: "arrays w' (belongsTo (queued G')) = Some (flat [(r, 5)])"
    "belongsTo (queued G') \<noteq> 1"
    unfolding R by (simp_all add: example_schema_def)
  from *(6) [rule_format, of HasMany]
  have nh: "arrays w' (hasMany (queued G')) = Some []" "hasMany (queued G') \<noteq> 2"
    unfolding R by (simp_all add: example_schema_def)
  from *(3,4) have olds: "arrays w' 2 = Some (flat [(7, 1), (7, 3)])"
    "arrays w' 1 = Some (flat [(8, 2)])"
    by simp_all
  from *(5) have ap: "applied w' = [(7, 1), (7, 3), (8, 2)]"
    using flush_taken_fields(4) by simp
  from *(8) have flag: "nextFlush G'" unfolding R by simp
  from *(9) have fr: "flushRelationships w' = [0]"
    unfolding R using flush_taken_fields(5) by simp
  have pre: "\<exists>G. graphs flush_taken 0 = Some G \<and>
      arrays flush_taken (hasMany (queued G)) = Some (flat [(7, 1), (7, 3)]) \<and>
      arrays flush_taken (belongsTo (queued G)) = Some (flat [(8, 2)])"
    using flush_taken_fields(1) hm bt by blast
  have post: "\<exists>w' G' r.
      flush example_schema repush 0 flush_taken = Some (Inr w') \<and> graphs w' 0 = Some G' \<and>
      arrays w' 2 = Some (flat [(7, 1), (7, 3)]) \<and> arrays w' 1 = Some (flat [(8, 2)]) \<and>
      applied w' = [(7, 1), (7, 3), (8, 2)] \<and>
      relationship_of w' 0 9 ''author'' = Some r \<and>
      arrays w' (belongsTo (queued G')) = Some (flat [(r, 5)]) \<and>
      arrays w' (hasMany (queued G')) = Some [] \<and>
      belongsTo (queued G') \<noteq> 1 \<and> hasMany (queued G') \<noteq> 2 \<and>
      nextFlush G' \<and> flushRelationships w' = [0]"
    by (intro exI [of _ w'] exI [of _ G'] exI [of _ r] conjI *(1,2) olds ap r nb nh flag fr)
  from flush_taken_wf pre R post show ?thesis by (intro conjI)
qed

lemma payloads_for_flat: "payloads_for r (flat ps) = map snd (filter (\<lambda>x. fst x = r) ps)"
  by (induction ps) auto

lemma relationship_of_kind:
  assumes wf: "wf schema w" and r: "relationship_of w g i n = Some r"
  shows "\<exists>rel. relationships w r = Some rel \<and> kind rel = schema i n"
proof -
  from r obtain G c C where a: "graphs w g = Some G" "identifiers G i = Some c"
    "containers w c = Some C" "initializedRelationships C n = Some r"
    by (rule relationship_of_SomeD)
  from wf_container_owner [OF wf a(1,2)] a(3) have "rs_identifier C = i" by auto
  with wf a(3,4) show ?thesis
    unfolding wf_def rels_ok_def by blast
qed

lemma resolve_filter:
  assumes wf: "wf schema w" and r: "relationship_of w g i n = Some r"
    and res: "\<forall>(i', n', p) \<in> set pushes. relationship_of w g i' n' \<noteq> None"
  shows "map snd (filter (\<lambda>x. fst x = r) (resolve w g (of_kind schema (schema i n) pushes))) =
           payloads_of i n pushes"
  using res
proof (induction pushes)
  case Nil
  then show ?case by (simp add: payloads_of_def)
next
  case (Cons x pushes)
  obtain i' n' p where x: "x = (i', n', p)" by (cases x)
  with Cons.prems obtain r' where r': "relationship_of w g i' n' = Some r'" by auto
  from Cons have IH: "map snd (filter (\<lambda>x. fst x = r)
      (resolve w g (of_kind schema (schema i n) pushes))) = payloads_of i n pushes"
    by simp
  have same: "r' = r \<longleftrightarrow> i' = i \<and> n' = n"
  proof
    assume "r' = r"
    with r' have "relationship_of w g i' n' = Some r" by simp
    from relationship_of_inj [OF wf this r] show "i' = i \<and> n' = n" by simp
  next
    assume "i' = i \<and> n' = n"
    with r r' show "r' = r" by simp
  qed
  show ?case
  proof (cases "schema i' n' = schema i n")
    case True
    with x r' IH same show ?thesis by (auto simp: payloads_of_def)
  next
    case False
    then have "\<not> (i' = i \<and> n' = n)" by auto
    with False x IH show ?thesis by (simp add: payloads_of_def)
  qed
qed

lemma wf_queue:
  assumes "wf schema w" "graphs w g = Some G"
  obtains ps where "arrays w (queued_at k (queued G)) = Some (flat ps)"
    "\<forall>(r, p)\<in>set ps. \<exists>rel. relationships w r = Some rel \<and> kind rel = k"
  using assms unfolding wf_def queues_ok_def by blast

lemma not_queued:
  assumes "\<forall>(r', p)\<in>set ps. \<exists>rel. relationships w r' = Some rel \<and> kind rel = k"
    and "relationships w r = None \<or> (\<exists>rel. relationships w r = Some rel \<and> kind rel \<noteq> k)"
  shows "filter (\<lambda>x. fst x = r) ps = []"
  using assms by (auto simp: filter_empty_conv)

lemma queued_payloads_both:
  assumes wf: "wf schema w" and G: "graphs w g = Some G"
    and hm: "arrays w (hasMany (queued G)) = Some (flat hm)"
    and bt: "arrays w (belongsTo (queued G)) = Some (flat bt)"
    and rel: "relationships w r = Some rel"
  shows "queued_payloads w g r = map snd (filter (\<lambda>x. fst x = r) (hm @ bt))"
proof -
  obtain hm' where hm': "arrays w (queued_at HasMany (queued G)) = Some (flat hm')"
    "\<forall>(r, p)\<in>set hm'. \<exists>rel. relationships w r = Some rel \<and> kind rel = HasMany"
    by (rule wf_queue [OF wf G])
  obtain bt' where bt': "arrays w (queued_at BelongsTo (queued G)) = Some (flat bt')"
    "\<forall>(r, p)\<in>set bt'. \<exists>rel. relationships w r = Some rel \<and> kind rel = BelongsTo"
    by (rule wf_queue [OF wf G])
  from hm hm'(1) have h: "hm' = hm" by (simp add: flat_inj)
  from bt bt'(1) have b: "bt' = bt" by (simp add: flat_inj)
  show ?thesis
  proof (cases "kind rel")
    case BelongsTo
    with rel have "filter (\<lambda>x. fst x = r) hm = []"
      using not_queued [OF hm'(2), of r] h by auto
    with BelongsTo G rel bt show ?thesis
      by (simp add: queued_payloads_def payloads_for_flat)
  next
    case HasMany
    with rel have "filter (\<lambda>x. fst x = r) bt = []"
      using not_queued [OF bt'(2), of r] b by auto
    with HasMany G rel hm show ?thesis
      by (simp add: queued_payloads_def payloads_for_flat)
  qed
qed

lemma push_all_queued_payloads:
  assumes wf: "wf schema w" and G: "graphs w g = Some G"
    and pa: "push_all schema g pushes w = Inr w1"
    and r: "relationship_of w1 g i n = Some r"
  shows "queued_payloads w1 g r = queued_payloads w g r @ payloads_of i n pushes"
proof -
  from push_all_effect [OF wf G, of pushes] pa have wf1: "wf schema w1"
    and e: "extends w w1" and pf: "push_frame w w1" by simp_all
  from relationship_of_kind [OF wf1 r] obtain rel1 where
    rel1: "relationships w1 r = Some rel1" "kind rel1 = schema i n" by blast
  let ?k = "schema i n"
  obtain ps where ps: "arrays w (queued_at ?k (queued G)) = Some (flat ps)"
    "\<forall>(r, p)\<in>set ps. \<exists>rel. relationships w r = Some rel \<and> kind rel = ?k"
    by (rule wf_queue [OF wf G])
  from push_all_queue_effect [OF wf G pa] G ps(1) obtain G1 where
    G1: "graphs w1 g = Some G1" "queued G1 = queued G"
    "arrays w1 (queued_at ?k (queued G)) =
       Some (flat (ps @ resolve w1 g (of_kind schema ?k pushes)))"
    and res: "\<forall>(i, n, p) \<in> set pushes. relationship_of w1 g i n \<noteq> None"
    unfolding queue_effect_def by blast
  from G1 rel1 have q1: "queued_payloads w1 g r =
      map snd (filter (\<lambda>x. fst x = r) ps) @
      map snd (filter (\<lambda>x. fst x = r) (resolve w1 g (of_kind schema ?k pushes)))"
    by (simp add: queued_payloads_def payloads_for_flat)
  have q0: "queued_payloads w g r = map snd (filter (\<lambda>x. fst x = r) ps)"
  proof (cases "relationships w r")
    case None
    then have "filter (\<lambda>x. fst x = r) ps = []"
      using not_queued [OF ps(2), of r] by simp
    with None G show ?thesis by (simp add: queued_payloads_def)
  next
    case (Some rel)
    with pf have "relationships w1 r = Some rel" unfolding push_frame_def by blast
    with rel1 have "kind rel = ?k" by simp
    with Some G ps(1) show ?thesis
      by (simp add: queued_payloads_def payloads_for_flat)
  qed
  from q1 q0 resolve_filter [OF wf1 r res] show ?thesis by simp
qed

lemma push_all_in_submission_order:
  assumes "wf schema w" "graphs w g = Some G"
  shows "\<exists>w1. push_all schema g pushes w = Inr w1 \<and>
           applied w1 = applied w \<and>
           (\<forall>r rel. relationships w r = Some rel \<longrightarrow> relationships w1 r = Some rel) \<and>
           (\<forall>r rel. relationships w r = None \<longrightarrow> relationships w1 r = Some rel \<longrightarrow>
              canonicalUpdates rel = []) \<and>
           (\<forall>(i, n, p) \<in> set pushes. relationship_of w1 g i n \<noteq> None) \<and>
           (\<forall>i n r. relationship_of w1 g i n = Some r \<longrightarrow>
              queued_payloads w1 g r = queued_payloads w g r @ payloads_of i n pushes) \<and>
           (\<exists>w2. flush schema reentry g w1 = Some (Inr w2) \<and>
              (\<forall>r rel1. relationships w1 r = Some rel1 \<longrightarrow>
                 (\<exists>rel2. relationships w2 r = Some rel2 \<and>
                    canonicalUpdates rel2 = canonicalUpdates rel1 @ queued_payloads w1 g r)))"
proof -
  from push_all_effect [OF assms, of pushes] obtain w1 where
    pa: "push_all schema g pushes w = Inr w1" and wf1: "wf schema w1"
    and e: "extends w w1" and pf: "push_frame w w1" by blast
  from pf have ap: "applied w1 = applied w"
    and keep: "\<forall>r rel. relationships w r = Some rel \<longrightarrow> relationships w1 r = Some rel"
    and new: "\<forall>r rel. relationships w r = None \<longrightarrow> relationships w1 r = Some rel \<longrightarrow>
        canonicalUpdates rel = []"
    unfolding push_frame_def by blast+
  from push_all_queue_effect [OF assms pa]
  have res: "\<forall>(i, n, p) \<in> set pushes. relationship_of w1 g i n \<noteq> None"
    unfolding queue_effect_def by blast
  have queued: "\<forall>i n r. relationship_of w1 g i n = Some r \<longrightarrow>
      queued_payloads w1 g r = queued_payloads w g r @ payloads_of i n pushes"
    using push_all_queued_payloads [OF assms pa] by blast
  from extends_graph [OF e assms(2)] obtain G1 where G1: "graphs w1 g = Some G1" ..
  obtain hm bt w2 w' where *:
    "arrays w1 (hasMany (queued G1)) = Some (flat hm)"
    "arrays w1 (belongsTo (queued G1)) = Some (flat bt)"
    "flush schema reentry g w1 = Some (Inr w')"
    "update_frame hm (flush_begin g G1 w1) w2" "update_frame bt w2 w'"
    by (rule flush_effect [OF wf1 G1, of reentry]) blast
  from update_frame_trans [OF *(4,5)]
  have uf: "update_frame (hm @ bt) (flush_begin g G1 w1) w'" .
  have logs: "\<forall>r rel1. relationships w1 r = Some rel1 \<longrightarrow>
      (\<exists>rel2. relationships w' r = Some rel2 \<and>
         canonicalUpdates rel2 = canonicalUpdates rel1 @ queued_payloads w1 g r)"
  proof (intro allI impI)
    fix r rel1 assume rel1: "relationships w1 r = Some rel1"
    then have "relationships (flush_begin g G1 w1) r = Some rel1"
      by (simp add: flush_begin_fields)
    moreover from uf have "\<forall>r rel. relationships (flush_begin g G1 w1) r = Some rel \<longrightarrow>
        (\<exists>rel'. relationships w' r = Some rel' \<and>
           canonicalUpdates rel' =
             canonicalUpdates rel @ map snd (filter (\<lambda>x. fst x = r) (hm @ bt)))"
      unfolding update_frame_def by blast
    ultimately obtain rel2 where "relationships w' r = Some rel2"
      "canonicalUpdates rel2 =
         canonicalUpdates rel1 @ map snd (filter (\<lambda>x. fst x = r) (hm @ bt))"
      by blast
    with queued_payloads_both [OF wf1 G1 *(1,2) rel1]
    show "\<exists>rel2. relationships w' r = Some rel2 \<and>
        canonicalUpdates rel2 = canonicalUpdates rel1 @ queued_payloads w1 g r"
      by simp
  qed
  with *(3) have fl: "\<exists>w2. flush schema reentry g w1 = Some (Inr w2) \<and>
      (\<forall>r rel1. relationships w1 r = Some rel1 \<longrightarrow>
         (\<exists>rel2. relationships w2 r = Some rel2 \<and>
            canonicalUpdates rel2 = canonicalUpdates rel1 @ queued_payloads w1 g r))"
    by blast
  show ?thesis
    by (intro exI [of _ w1] conjI pa ap keep new res queued fl)
qed

lemma one_store_eval:
  "one_store =
     \<lparr> Graphs = [0 \<mapsto> 0],
       graphs = [0 \<mapsto> \<lparr> queued = \<lparr> belongsTo = 1, hasMany = 2 \<rparr>, nextFlush = False,
                        identifiers = Map.empty, implicitMap = Map.empty, storeWrapper = 0 \<rparr>],
       containers = Map.empty, relationships = Map.empty,
       arrays = [1 \<mapsto> [], 2 \<mapsto> []],
       dicts = Map.empty, nextRef = 3, currentInstance = False, flushRelationships = [],
       applied = [] \<rparr>"
  by (simp add: one_store_def graphFor_def new_Graph_def init_def numeral_2_eq_2 [symmetric])

text \<open>
  \<^verbatim>\<open>push\<close> with no run loop open: \<^verbatim>\<open>join\<close> begins a run loop, the callback schedules the
  flush, and the end of the run loop runs it. The flush clears the flag, takes the queue
  and hands the payload to the relationship; then \<^verbatim>\<open>push\<close> sets the flag.
\<close>

lemma push_outside_eval:
  "Graph_push example_schema no_reentry 0 7 ''comments'' 1 one_store =
     Some (Inr
     \<lparr> Graphs = [0 \<mapsto> 0],
       graphs = [0 \<mapsto> \<lparr> queued = \<lparr> belongsTo = 5, hasMany = 6 \<rparr>, nextFlush = True,
                        identifiers = [7 \<mapsto> 3], implicitMap = Map.empty, storeWrapper = 0 \<rparr>],
       containers = [3 \<mapsto> \<lparr> rs_graph = 0, rs_identifier = 7,
                             initializedRelationships = [''comments'' \<mapsto> 4] \<rparr>],
       relationships = [4 \<mapsto> \<lparr> kind = HasMany, rel_identifier = 7, rel_key = ''comments'',
                                canonicalUpdates = [1] \<rparr>],
       arrays = [1 \<mapsto> [], 2 \<mapsto> [QRelationship 4, QPayload 1], 5 \<mapsto> [], 6 \<mapsto> []],
       dicts = Map.empty, nextRef = 7, currentInstance = False, flushRelationships = [],
       applied = [(4, 1)] \<rparr>)"
  apply (simp add: one_store_eval Graph_push_def Graph_get_def Relationships_get_def
      example_schema_def Let_def backburner_join_def schedule_def)
  apply (subst backburner_end.simps)
  apply (simp add: flush_def Let_def)
  apply (subst drain.simps)
  apply (simp add: Relationship_push_def no_reentry_def)
  apply (subst drain.simps)
  apply simp
  apply (subst drain.simps)
  apply simp
  apply (subst backburner_end.simps)
  apply simp
  done

lemma pushed_outside_eval:
  "pushed_outside =
     \<lparr> Graphs = [0 \<mapsto> 0],
       graphs = [0 \<mapsto> \<lparr> queued = \<lparr> belongsTo = 5, hasMany = 6 \<rparr>, nextFlush = True,
                        identifiers = [7 \<mapsto> 3], implicitMap = Map.empty, storeWrapper = 0 \<rparr>],
       containers = [3 \<mapsto> \<lparr> rs_graph = 0, rs_identifier = 7,
                             initializedRelationships = [''comments'' \<mapsto> 4] \<rparr>],
       relationships = [4 \<mapsto> \<lparr> kind = HasMany, rel_identifier = 7, rel_key = ''comments'',
                                canonicalUpdates = [1] \<rparr>],
       arrays = [1 \<mapsto> [], 2 \<mapsto> [QRelationship 4, QPayload 1], 5 \<mapsto> [], 6 \<mapsto> []],
       dicts = Map.empty, nextRef = 7, currentInstance = False, flushRelationships = [],
       applied = [(4, 1)] \<rparr>"
  unfolding pushed_outside_def push_outside_eval by simp

lemma pushed_outside_fields:
  "Graph_push example_schema no_reentry 0 7 ''comments'' 1 one_store = Some (Inr pushed_outside)"
  "graphs pushed_outside 0 = Some \<lparr> queued = \<lparr> belongsTo = 5, hasMany = 6 \<rparr>, nextFlush = True,
      identifiers = [7 \<mapsto> 3], implicitMap = Map.empty, storeWrapper = 0 \<rparr>"
  "relationships pushed_outside 4 = Some \<lparr> kind = HasMany, rel_identifier = 7,
      rel_key = ''comments'', canonicalUpdates = [1] \<rparr>"
  "applied pushed_outside = [(4, 1)]"
  "flushRelationships pushed_outside = []"
  "currentInstance pushed_outside = False"
  "arrays pushed_outside 6 = Some []"
  "arrays pushed_outside 5 = Some []"
  "relationship_of pushed_outside 0 7 ''comments'' = Some 4"
  "queued_payloads pushed_outside 0 4 = []"
  using push_outside_eval
  by (simp_all add: pushed_outside_eval relationship_of_def queued_payloads_def)

text \<open>A second \<^verbatim>\<open>push\<close> finds the flag set: it appends to the queue and schedules nothing.\<close>

lemma pushed_outside_twice_fields:
  "Graph_push example_schema no_reentry 0 7 ''comments'' 2 pushed_outside =
     Some (Inr pushed_outside_twice)"
  "graphs pushed_outside_twice 0 = Some \<lparr> queued = \<lparr> belongsTo = 5, hasMany = 6 \<rparr>,
      nextFlush = True, identifiers = [7 \<mapsto> 3], implicitMap = Map.empty, storeWrapper = 0 \<rparr>"
  "relationships pushed_outside_twice 4 = Some \<lparr> kind = HasMany, rel_identifier = 7,
      rel_key = ''comments'', canonicalUpdates = [1] \<rparr>"
  "applied pushed_outside_twice = [(4, 1)]"
  "flushRelationships pushed_outside_twice = []"
  "currentInstance pushed_outside_twice = False"
  "arrays pushed_outside_twice 6 = Some [QRelationship 4, QPayload 2]"
  "queued_payloads pushed_outside_twice 0 4 = [2]"
  "backburner_end example_schema no_reentry (pushed_outside_twice\<lparr> currentInstance := True \<rparr>) =
     Some (Inr pushed_outside_twice)"
  by (simp_all add: pushed_outside_twice_def pushed_outside_eval Graph_push_def Graph_get_def
      Relationships_get_def example_schema_def Let_def queued_payloads_def
      backburner_end.simps)

text \<open>
  C3. That a flush is scheduled exactly when the flag \<open>_nextFlush\<close> is set does not hold of
  \<^verbatim>\<open>Graph.push\<close> when no run loop is open. On the graph of \<open>one_store\<close> the first \<^verbatim>\<open>push\<close>
  runs the flush inside \<^verbatim>\<open>join\<close> and sets the flag afterwards: when it returns the flag is
  set, the queue of the run loop is empty and no run loop is open. The second \<^verbatim>\<open>push\<close>
  finds the flag set and schedules nothing; its payload stays in the queue, and a run loop
  that is opened and ended later has nothing to flush.
\<close>

theorem push_outside_run_loop_flag_without_flush:
  "currentInstance one_store = False \<and> flushRelationships one_store = [] \<and>
   Graph_push example_schema no_reentry 0 7 ''comments'' 1 one_store = Some (Inr pushed_outside) \<and>
   graphs pushed_outside 0 = Some \<lparr> queued = \<lparr> belongsTo = 5, hasMany = 6 \<rparr>, nextFlush = True,
      identifiers = [7 \<mapsto> 3], implicitMap = Map.empty, storeWrapper = 0 \<rparr> \<and>
   flushRelationships pushed_outside = [] \<and> currentInstance pushed_outside = False \<and>
   applied pushed_outside = [(4, 1)] \<and>
   Graph_push example_schema no_reentry 0 7 ''comments'' 2 pushed_outside =
     Some (Inr pushed_outside_twice) \<and>
   graphs pushed_outside_twice 0 = Some \<lparr> queued = \<lparr> belongsTo = 5, hasMany = 6 \<rparr>,
      nextFlush = True, identifiers = [7 \<mapsto> 3], implicitMap = Map.empty, storeWrapper = 0 \<rparr> \<and>
   flushRelationships pushed_outside_twice = [] \<and>
   arrays pushed_outside_twice 6 = Some [QRelationship 4, QPayload 2] \<and>
   applied pushed_outside_twice = [(4, 1)] \<and>
   backburner_end example_schema no_reentry (pushed_outside_twice\<lparr> currentInstance := True \<rparr>) =
     Some (Inr pushed_outside_twice)"
  using pushed_outside_fields pushed_outside_twice_fields by (simp add: one_store_eval)

text \<open>
  C1 as the specification states it, for every call of \<^verbatim>\<open>push\<close>, does not hold: on the graph
  of \<open>one_store\<close>, with no run loop open, \<^verbatim>\<open>push\<close> returns when the payload has been handed
  to the relationship and the queue of the graph is empty.
\<close>

theorem push_outside_run_loop_applies_update:
  "currentInstance one_store = False \<and> applied one_store = [] \<and>
   relationships one_store 4 = None \<and>
   Graph_push example_schema no_reentry 0 7 ''comments'' 1 one_store = Some (Inr pushed_outside) \<and>
   relationship_of pushed_outside 0 7 ''comments'' = Some 4 \<and>
   relationships pushed_outside 4 = Some \<lparr> kind = HasMany, rel_identifier = 7,
      rel_key = ''comments'', canonicalUpdates = [1] \<rparr> \<and>
   applied pushed_outside = [(4, 1)] \<and> queued_payloads pushed_outside 0 4 = []"
  using pushed_outside_fields by (simp add: one_store_eval)

lemma Graph_push_all_in_loop:
  assumes "wf schema w" "graphs w g = Some G" "currentInstance w"
  shows "\<exists>w1. Graph_push_all schema reentry g pushes w = Some (Inr w1) \<and>
           push_all schema g pushes w = Inr w1"
proof -
  from push_all_effect [OF assms(1,2), of pushes] obtain w1 where
    "push_all schema g pushes w = Inr w1" by blast
  with Graph_push_all_open [OF assms, of reentry pushes] show ?thesis by simp
qed

text \<open>
  C1. While a run loop is open, \<^verbatim>\<open>Graph.push\<close> enqueues the update and applies nothing: for
  every identifier, relationship name and payload, and for every sequence of pushes, the
  pushes return, make no call of \<^verbatim>\<open>Relationship.push\<close>, leave every existing relationship
  as it is and create relationships with no update applied. All payloads are retained: for
  every relationship of the graph, the payloads queued for it afterwards are those queued
  before followed by the payloads pushed for its identifier and name, in submission order,
  none coalesced. The flush that follows, whatever the relationships do, hands every
  relationship exactly its queued payloads, in that order.
\<close>

theorem push_enqueues_in_submission_order:
  assumes "wf schema w" "graphs w g = Some G" "currentInstance w"
  shows "\<exists>w1. Graph_push_all schema reentry g pushes w = Some (Inr w1) \<and>
           applied w1 = applied w \<and>
           (\<forall>r rel. relationships w r = Some rel \<longrightarrow> relationships w1 r = Some rel) \<and>
           (\<forall>r rel. relationships w r = None \<longrightarrow> relationships w1 r = Some rel \<longrightarrow>
              canonicalUpdates rel = []) \<and>
           (\<forall>(i, n, p) \<in> set pushes. relationship_of w1 g i n \<noteq> None) \<and>
           (\<forall>i n r. relationship_of w1 g i n = Some r \<longrightarrow>
              queued_payloads w1 g r = queued_payloads w g r @ payloads_of i n pushes) \<and>
           (\<exists>w2. flush schema reentry g w1 = Some (Inr w2) \<and>
              (\<forall>r rel1. relationships w1 r = Some rel1 \<longrightarrow>
                 (\<exists>rel2. relationships w2 r = Some rel2 \<and>
                    canonicalUpdates rel2 = canonicalUpdates rel1 @ queued_payloads w1 g r)))"
proof -
  from Graph_push_all_in_loop [OF assms, of reentry pushes] obtain w1 where
    gen: "Graph_push_all schema reentry g pushes w = Some (Inr w1)"
    and loop: "push_all schema g pushes w = Inr w1" by blast
  from push_all_in_submission_order [OF assms(1,2), of pushes reentry] loop
  have "applied w1 = applied w \<and>
      (\<forall>r rel. relationships w r = Some rel \<longrightarrow> relationships w1 r = Some rel) \<and>
      (\<forall>r rel. relationships w r = None \<longrightarrow> relationships w1 r = Some rel \<longrightarrow>
         canonicalUpdates rel = []) \<and>
      (\<forall>(i, n, p) \<in> set pushes. relationship_of w1 g i n \<noteq> None) \<and>
      (\<forall>i n r. relationship_of w1 g i n = Some r \<longrightarrow>
         queued_payloads w1 g r = queued_payloads w g r @ payloads_of i n pushes) \<and>
      (\<exists>w2. flush schema reentry g w1 = Some (Inr w2) \<and>
         (\<forall>r rel1. relationships w1 r = Some rel1 \<longrightarrow>
            (\<exists>rel2. relationships w2 r = Some rel2 \<and>
               canonicalUpdates rel2 = canonicalUpdates rel1 @ queued_payloads w1 g r)))"
    by simp
  with gen show ?thesis by blast
qed

theorem push_enqueues_in_submission_order_witness:
  "wf example_schema two_stores \<and> graphs two_stores 0 \<noteq> None \<and> currentInstance two_stores \<and>
   (\<exists>w1 r rel1 w2 rel2.
      Graph_push_all example_schema no_reentry 0 same_thrice two_stores = Some (Inr w1) \<and>
      applied w1 = [] \<and>
      relationship_of w1 0 7 ''comments'' = Some r \<and>
      relationships w1 r = Some rel1 \<and> canonicalUpdates rel1 = [] \<and>
      queued_payloads w1 0 r = [1, 2, 3] \<and>
      flush example_schema no_reentry 0 w1 = Some (Inr w2) \<and>
      relationships w2 r = Some rel2 \<and> canonicalUpdates rel2 = [1, 2, 3])"
proof -
  from push_enqueues_in_submission_order [OF two_stores_wf two_stores_graph two_stores_open,
      of example_schema no_reentry same_thrice]
  obtain w1 w2 where *:
    "Graph_push_all example_schema no_reentry 0 same_thrice two_stores = Some (Inr w1)"
    "applied w1 = applied two_stores"
    "\<forall>r rel. relationships two_stores r = None \<longrightarrow> relationships w1 r = Some rel \<longrightarrow>
       canonicalUpdates rel = []"
    "\<forall>(i, n, p) \<in> set same_thrice. relationship_of w1 0 i n \<noteq> None"
    "\<forall>i n r. relationship_of w1 0 i n = Some r \<longrightarrow>
       queued_payloads w1 0 r = queued_payloads two_stores 0 r @ payloads_of i n same_thrice"
    "flush example_schema no_reentry 0 w1 = Some (Inr w2)"
    "\<forall>r rel1. relationships w1 r = Some rel1 \<longrightarrow>
       (\<exists>rel2. relationships w2 r = Some rel2 \<and>
          canonicalUpdates rel2 = canonicalUpdates rel1 @ queued_payloads w1 0 r)"
    by blast
  from *(4) obtain r where r: "relationship_of w1 0 7 ''comments'' = Some r"
    by (auto simp: same_thrice_def)
  have none: "relationships two_stores r = None" by (simp add: two_stores_eval)
  then have q0: "queued_payloads two_stores 0 r = []"
    by (simp add: queued_payloads_def two_stores_eval)
  from *(5) r q0 have q1: "queued_payloads w1 0 r = [1, 2, 3]"
    by (simp add: payloads_of_def same_thrice_def)
  from Graph_push_all_in_loop [OF two_stores_wf two_stores_graph two_stores_open,
      of example_schema no_reentry same_thrice] *(1)
  have "push_all example_schema 0 same_thrice two_stores = Inr w1" by simp
  with push_all_effect [OF two_stores_wf two_stores_graph, of example_schema same_thrice]
  have "wf example_schema w1" by simp
  from relationship_of_kind [OF this r] obtain rel1 where
    rel1: "relationships w1 r = Some rel1" by blast
  from *(3) none rel1 have log1: "canonicalUpdates rel1 = []" by blast
  from *(7) rel1 log1 q1 obtain rel2 where
    rel2: "relationships w2 r = Some rel2" "canonicalUpdates rel2 = [1, 2, 3]"
    by fastforce
  from *(2) have ap: "applied w1 = []" by (simp add: two_stores_eval)
  have "\<exists>w1 r rel1 w2 rel2.
      Graph_push_all example_schema no_reentry 0 same_thrice two_stores = Some (Inr w1) \<and>
      applied w1 = [] \<and>
      relationship_of w1 0 7 ''comments'' = Some r \<and>
      relationships w1 r = Some rel1 \<and> canonicalUpdates rel1 = [] \<and>
      queued_payloads w1 0 r = [1, 2, 3] \<and>
      flush example_schema no_reentry 0 w1 = Some (Inr w2) \<and>
      relationships w2 r = Some rel2 \<and> canonicalUpdates rel2 = [1, 2, 3]"
    by (intro exI [of _ w1] exI [of _ r] exI [of _ rel1] exI [of _ w2] exI [of _ rel2] conjI
        *(1) ap r rel1 log1 q1 *(6) rel2)
  with two_stores_wf [of example_schema] two_stores_graph two_stores_open show ?thesis by simp
qed

end
